theory Spec2Isabelle
  imports Main
begin

section \<open>Data model (src/src/App.tsx, lines 14 to 32)\<close>

text \<open>
  A JavaScript string is a sequence of UTF-16 code units; \<open>a.length\<close> counts them and
  \<open>a[k]\<close> is the one-unit string at position \<open>k\<close>, or \<open>undefined\<close> past the end.
  A code unit is modelled by its number. Every number the builder handles is an array
  index or a cost, a non-negative integer far below \<open>2^53\<close>, so it is a \<open>nat\<close>.
  The coordinates \<open>buildBacktrace\<close> is called with, and the ones it reads from the links
  of the table it is given, may be any integers, negative ones included: they are \<open>int\<close>.
\<close>

type_synonym js_string = "nat list"

datatype Op = Init | Match | Replace | Insert | Delete

text \<open>One entry of \<open>candidates\<close>, and the type of \<open>chosen\<close>: \<open>{op, from, value}\<close>.\<close>

record candidate =
  c_op :: Op
  c_from :: "(nat \<times> nat) option"
  c_value :: nat

text \<open>\<open>CellExplain\<close>; the optional fields \<open>aChar?\<close> and \<open>bChar?\<close> are options.\<close>

record CellExplain =
  ce_i :: nat
  ce_j :: nat
  aChar :: "js_string option"
  bChar :: "js_string option"
  cost :: nat
  candidates :: "candidate list"
  chosen :: candidate

text \<open>An entry of \<open>parent\<close> is \<open>null\<close> or \<open>{i, j, op}\<close>.\<close>

record parent_link =
  p_i :: int
  p_j :: int
  p_op :: Op

type_synonym parent_table = "parent_link option list list"

text \<open>The three arrays the builder fills and returns: \<open>{dp, steps, parent}\<close>.\<close>

record trace =
  dp :: "nat list list"
  steps :: "CellExplain list"
  parent :: parent_table

section \<open>Array and string accesses\<close>

text \<open>
  \<open>t[i][j]\<close> raises a TypeError when \<open>t[i]\<close> is \<open>undefined\<close>. When the row exists
  and \<open>j\<close> is past its end, JavaScript raises nothing: a read gives \<open>undefined\<close> and a
  write lengthens the row. The model stops there with \<open>OffEnd\<close> instead, so a result
  \<open>Inr r\<close> says that every access of the run was inside the arrays.
\<close>

datatype fault = TypeError | OffEnd

definition rd :: "'a list list \<Rightarrow> nat \<Rightarrow> nat \<Rightarrow> fault + 'a" where
  "rd t i j =
     (if i < length t
      then (if j < length (t ! i) then Inr (t ! i ! j) else Inl OffEnd)
      else Inl TypeError)"

definition wr :: "'a list list \<Rightarrow> nat \<Rightarrow> nat \<Rightarrow> 'a \<Rightarrow> fault + 'a list list" where
  "wr t i j v =
     (if i < length t
      then (if j < length (t ! i) then Inr (t[i := (t ! i)[j := v]]) else Inl OffEnd)
      else Inl TypeError)"

text \<open>\<open>a[k]\<close> on a string: a one-unit string, or \<open>undefined\<close> (here \<open>None\<close>).\<close>

definition char_at :: "js_string \<Rightarrow> nat \<Rightarrow> js_string option" where
  "char_at s k = (if k < length s then Some [s ! k] else None)"

text \<open>The boundary marker, the one-unit string U+2205.\<close>

definition empty_mark :: js_string where
  "empty_mark = [8709]"

section \<open>computeEditDistanceSteps (lines 38 to 130)\<close>

text \<open>Body of the first loop (lines 50 to 72), for one \<open>i\<close>.\<close>

definition init_col_body :: "js_string \<Rightarrow> nat \<Rightarrow> trace \<Rightarrow> fault + trace" where
  "init_col_body a i s =
     (case wr (dp s) i 0 i of Inl e \<Rightarrow> Inl e | Inr d \<Rightarrow>
     (case wr (parent s) i 0
             (if i = 0 then None else Some \<lparr>p_i = int i - 1, p_j = 0, p_op = Delete\<rparr>) of
        Inl e \<Rightarrow> Inl e | Inr p \<Rightarrow>
     (case rd d i 0 of Inl e \<Rightarrow> Inl e | Inr c \<Rightarrow>
      if i > 0 then
        Inr \<lparr>dp = d,
             steps = steps s @
               [\<lparr>ce_i = i, ce_j = 0, aChar = char_at a (i - 1), bChar = Some empty_mark,
                 cost = c,
                 candidates = [\<lparr>c_op = Delete, c_from = Some (i - 1, 0), c_value = c\<rparr>],
                 chosen = \<lparr>c_op = Delete, c_from = Some (i - 1, 0), c_value = c\<rparr>\<rparr>],
             parent = p\<rparr>
      else
        Inr \<lparr>dp = d,
             steps = steps s @
               [\<lparr>ce_i = i, ce_j = 0, aChar = Some empty_mark, bChar = Some empty_mark,
                 cost = c,
                 candidates = [\<lparr>c_op = Init, c_from = None, c_value = 0\<rparr>],
                 chosen = \<lparr>c_op = Init, c_from = None, c_value = 0\<rparr>\<rparr>],
             parent = p\<rparr>)))"

text \<open>\<open>for (let i = 0; i <= m; i++)\<close>, entered with \<open>i = 0\<close>.\<close>

function init_col :: "js_string \<Rightarrow> nat \<Rightarrow> nat \<Rightarrow> trace \<Rightarrow> fault + trace" where
  "init_col a m i s =
     (if i \<le> m
      then (case init_col_body a i s of Inl e \<Rightarrow> Inl e | Inr s' \<Rightarrow> init_col a m (i + 1) s')
      else Inr s)"
  by pat_completeness auto
termination
  by (relation "measure (\<lambda>(a, m, i, s). m + 1 - i)") auto

text \<open>Body of the second loop (lines 76 to 86), for one \<open>j\<close>.\<close>

definition init_row_body :: "js_string \<Rightarrow> nat \<Rightarrow> trace \<Rightarrow> fault + trace" where
  "init_row_body b j s =
     (case wr (dp s) 0 j j of Inl e \<Rightarrow> Inl e | Inr d \<Rightarrow>
     (case wr (parent s) 0 j (Some \<lparr>p_i = 0, p_j = int j - 1, p_op = Insert\<rparr>) of
        Inl e \<Rightarrow> Inl e | Inr p \<Rightarrow>
     (case rd d 0 j of Inl e \<Rightarrow> Inl e | Inr c \<Rightarrow>
        Inr \<lparr>dp = d,
             steps = steps s @
               [\<lparr>ce_i = 0, ce_j = j, aChar = Some empty_mark, bChar = char_at b (j - 1),
                 cost = c,
                 candidates = [\<lparr>c_op = Insert, c_from = Some (0, j - 1), c_value = c\<rparr>],
                 chosen = \<lparr>c_op = Insert, c_from = Some (0, j - 1), c_value = c\<rparr>\<rparr>],
             parent = p\<rparr>)))"

text \<open>\<open>for (let j = 1; j <= n; j++)\<close>, entered with \<open>j = 1\<close>.\<close>

function init_row :: "js_string \<Rightarrow> nat \<Rightarrow> nat \<Rightarrow> trace \<Rightarrow> fault + trace" where
  "init_row b n j s =
     (if j \<le> n
      then (case init_row_body b j s of Inl e \<Rightarrow> Inl e | Inr s' \<Rightarrow> init_row b n (j + 1) s')
      else Inr s)"
  by pat_completeness auto
termination
  by (relation "measure (\<lambda>(b, n, j, s). n + 1 - j)") auto

text \<open>
  Body of the fill loops (lines 92 to 125), for one cell. Both loops start at 1, so
  \<open>i - 1\<close> and \<open>j - 1\<close> never go below 0 in a call the program makes.
\<close>

definition fill_body :: "js_string \<Rightarrow> js_string \<Rightarrow> nat \<Rightarrow> nat \<Rightarrow> trace \<Rightarrow> fault + trace" where
  "fill_body a b i j s =
     (case rd (dp s) (i - 1) j of Inl e \<Rightarrow> Inl e | Inr x \<Rightarrow>
     (case rd (dp s) i (j - 1) of Inl e \<Rightarrow> Inl e | Inr y \<Rightarrow>
     (case rd (dp s) (i - 1) (j - 1) of Inl e \<Rightarrow> Inl e | Inr z \<Rightarrow>
      let del = x + 1;
          ins = y + 1;
          rep = z + (if char_at a (i - 1) = char_at b (j - 1) then 0 else 1);
          cands =
            [\<lparr>c_op = Delete, c_from = Some (i - 1, j), c_value = del\<rparr>,
             \<lparr>c_op = Insert, c_from = Some (i, j - 1), c_value = ins\<rparr>,
             \<lparr>c_op = (if char_at a (i - 1) = char_at b (j - 1) then Match else Replace),
              c_from = Some (i - 1, j - 1), c_value = rep\<rparr>];
          minVal = min del (min ins rep);
          diag = cands ! 2;
          delC = cands ! 0;
          insC = cands ! 1;
          ch = (if c_value diag = minVal then diag
                else if c_value delC = minVal then delC else insC)
      in
     (case wr (dp s) i j (c_value ch) of Inl e \<Rightarrow> Inl e | Inr d \<Rightarrow>
     (case wr (parent s) i j
             (case c_from ch of
                Some (fi, fj) \<Rightarrow> Some \<lparr>p_i = int fi, p_j = int fj, p_op = c_op ch\<rparr>
              | None \<Rightarrow> None) of
        Inl e \<Rightarrow> Inl e | Inr p \<Rightarrow>
     (case rd d i j of Inl e \<Rightarrow> Inl e | Inr c \<Rightarrow>
        Inr \<lparr>dp = d,
             steps = steps s @
               [\<lparr>ce_i = i, ce_j = j, aChar = char_at a (i - 1), bChar = char_at b (j - 1),
                 cost = c, candidates = cands, chosen = ch\<rparr>],
             parent = p\<rparr>))))))"

text \<open>The inner loop \<open>for (let j = 1; j <= n; j++)\<close> of row \<open>i\<close>.\<close>

function fill_row ::
  "js_string \<Rightarrow> js_string \<Rightarrow> nat \<Rightarrow> nat \<Rightarrow> nat \<Rightarrow> trace \<Rightarrow> fault + trace" where
  "fill_row a b n i j s =
     (if j \<le> n
      then (case fill_body a b i j s of Inl e \<Rightarrow> Inl e | Inr s' \<Rightarrow> fill_row a b n i (j + 1) s')
      else Inr s)"
  by pat_completeness auto
termination
  by (relation "measure (\<lambda>(a, b, n, i, j, s). n + 1 - j)") auto

text \<open>The outer loop \<open>for (let i = 1; i <= m; i++)\<close>.\<close>

function fill_rows ::
  "js_string \<Rightarrow> js_string \<Rightarrow> nat \<Rightarrow> nat \<Rightarrow> nat \<Rightarrow> trace \<Rightarrow> fault + trace" where
  "fill_rows a b m n i s =
     (if i \<le> m
      then (case fill_row a b n i 1 s of Inl e \<Rightarrow> Inl e | Inr s' \<Rightarrow> fill_rows a b m n (i + 1) s')
      else Inr s)"
  by pat_completeness auto
termination
  by (relation "measure (\<lambda>(a, b, m, n, i, s). m + 1 - i)") auto

text \<open>
  The whole function. \<open>Array.from\<close> builds every row as an array of its own, so the rows
  share nothing and lists of lists model them.
\<close>

definition computeEditDistanceSteps :: "js_string \<Rightarrow> js_string \<Rightarrow> fault + trace" where
  "computeEditDistanceSteps a b =
     (let m = length a;
          n = length b;
          s0 = \<lparr>dp = replicate (m + 1) (replicate (n + 1) 0),
                steps = [],
                parent = replicate (m + 1) (replicate (n + 1) None)\<rparr>
      in
      (case init_col a m 0 s0 of Inl e \<Rightarrow> Inl e | Inr s1 \<Rightarrow>
      (case init_row b n 1 s1 of Inl e \<Rightarrow> Inl e | Inr s2 \<Rightarrow>
       fill_rows a b m n 1 s2)))"

section \<open>buildBacktrace (lines 132 to 145)\<close>

text \<open>
  \<open>parent[i]?.[j]\<close> for integers \<open>i\<close> and \<open>j\<close>: \<open>undefined\<close> when the table has no row
  \<open>i\<close> (a negative \<open>i\<close>, or one past the last row) or the row has no entry \<open>j\<close>, else the
  entry; \<open>!p\<close> holds for \<open>undefined\<close> and for \<open>null\<close> alike. Nothing is raised.
\<close>

definition lookup_link :: "parent_table \<Rightarrow> int \<Rightarrow> int \<Rightarrow> parent_link option" where
  "lookup_link ptab i j =
     (if 0 \<le> i \<and> i < int (length ptab)
      then (if 0 \<le> j \<and> j < int (length (ptab ! nat i)) then ptab ! nat i ! nat j else None)
      else None)"

text \<open>
  A JavaScript \<open>Set\<close> keeps its members in insertion order and \<open>add\<close> of a member changes
  nothing. The key \<open>`${i},${j}`\<close> determines the pair \<open>(i, j)\<close>, which stands for it.
\<close>

definition set_add :: "'a \<Rightarrow> 'a list \<Rightarrow> 'a list" where
  "set_add x xs = (if x \<in> set xs then xs else xs @ [x])"

text \<open>
  The \<open>while (true)\<close> loop. \<open>None\<close> is a run that never leaves it; a run that leaves it
  returns the set, \<open>Inr path\<close>. The function has no \<open>throw\<close> and no access that can raise,
  so no branch of the model gives \<open>Inl\<close>.
\<close>

type_synonym path = "(int \<times> int) list"

partial_function (option) backtrace_loop ::
  "parent_table \<Rightarrow> int \<Rightarrow> int \<Rightarrow> path \<Rightarrow> (fault + path) option" where
  "backtrace_loop ptab i j path =
     (case lookup_link ptab i j of
        None \<Rightarrow> Some (Inr path)
      | Some p \<Rightarrow> backtrace_loop ptab (p_i p) (p_j p) (set_add (p_i p, p_j p) path))"

declare backtrace_loop.simps [code]

definition buildBacktrace :: "parent_table \<Rightarrow> int \<Rightarrow> int \<Rightarrow> (fault + path) option" where
  "buildBacktrace ptab m n = backtrace_loop ptab m n (set_add (m, n) [])"

text \<open>
  The same loop with a bound on the number of times its body runs: \<open>None\<close> when \<open>k\<close>
  runs of the body do not reach the \<open>break\<close>.
\<close>

fun backtrace_within ::
  "nat \<Rightarrow> parent_table \<Rightarrow> int \<Rightarrow> int \<Rightarrow> path \<Rightarrow> (fault + path) option" where
  "backtrace_within 0 ptab i j path = None"
| "backtrace_within (Suc k) ptab i j path =
     (case lookup_link ptab i j of
        None \<Rightarrow> Some (Inr path)
      | Some p \<Rightarrow> backtrace_within k ptab (p_i p) (p_j p) (set_add (p_i p, p_j p) path))"

declare init_col.simps [simp del]
declare init_row.simps [simp del]
declare fill_row.simps [simp del]
declare fill_rows.simps [simp del]

section \<open>What the builder leaves in each cell\<close>

text \<open>
  The functions of this section describe the finished arrays cell by cell. They are
  the vocabulary of the invariants below; the lemmas \<open>init_col_ok\<close> to
  \<open>builder_result\<close> prove that the loops above produce exactly these values.
\<close>

text \<open>An array of \<open>m + 1\<close> rows of \<open>n + 1\<close> entries each.\<close>

definition rect :: "nat \<Rightarrow> nat \<Rightarrow> 'a list list \<Rightarrow> bool" where
  "rect m n t \<longleftrightarrow> length t = m + 1 \<and> (\<forall>i \<le> m. length (t ! i) = n + 1)"

text \<open>The value of \<open>dp[i][j]\<close>.\<close>

fun dist_at :: "js_string \<Rightarrow> js_string \<Rightarrow> nat \<Rightarrow> nat \<Rightarrow> nat" where
  "dist_at a b 0 j = j"
| "dist_at a b (Suc i) 0 = Suc i"
| "dist_at a b (Suc i) (Suc j) =
     min (dist_at a b i (Suc j) + 1)
       (min (dist_at a b (Suc i) j + 1)
          (dist_at a b i j + (if char_at a i = char_at b j then 0 else 1)))"

text \<open>The three candidates of an interior cell, in the order of the array literal.\<close>

definition cell_cands :: "js_string \<Rightarrow> js_string \<Rightarrow> nat \<Rightarrow> nat \<Rightarrow> candidate list" where
  "cell_cands a b i j =
     [\<lparr>c_op = Delete, c_from = Some (i - 1, j), c_value = dist_at a b (i - 1) j + 1\<rparr>,
      \<lparr>c_op = Insert, c_from = Some (i, j - 1), c_value = dist_at a b i (j - 1) + 1\<rparr>,
      \<lparr>c_op = (if char_at a (i - 1) = char_at b (j - 1) then Match else Replace),
       c_from = Some (i - 1, j - 1),
       c_value = dist_at a b (i - 1) (j - 1) +
                 (if char_at a (i - 1) = char_at b (j - 1) then 0 else 1)\<rparr>]"

definition cell_chosen :: "js_string \<Rightarrow> js_string \<Rightarrow> nat \<Rightarrow> nat \<Rightarrow> candidate" where
  "cell_chosen a b i j =
     (let del = dist_at a b (i - 1) j + 1;
          ins = dist_at a b i (j - 1) + 1;
          rep = dist_at a b (i - 1) (j - 1) +
                (if char_at a (i - 1) = char_at b (j - 1) then 0 else 1);
          cands = cell_cands a b i j;
          minVal = min del (min ins rep)
      in if c_value (cands ! 2) = minVal then cands ! 2
         else if c_value (cands ! 0) = minVal then cands ! 0 else cands ! 1)"

text \<open>The Step pushed for each kind of cell.\<close>

definition col_step :: "js_string \<Rightarrow> nat \<Rightarrow> CellExplain" where
  "col_step a i =
     (if i > 0 then
        \<lparr>ce_i = i, ce_j = 0, aChar = char_at a (i - 1), bChar = Some empty_mark, cost = i,
         candidates = [\<lparr>c_op = Delete, c_from = Some (i - 1, 0), c_value = i\<rparr>],
         chosen = \<lparr>c_op = Delete, c_from = Some (i - 1, 0), c_value = i\<rparr>\<rparr>
      else
        \<lparr>ce_i = i, ce_j = 0, aChar = Some empty_mark, bChar = Some empty_mark, cost = i,
         candidates = [\<lparr>c_op = Init, c_from = None, c_value = 0\<rparr>],
         chosen = \<lparr>c_op = Init, c_from = None, c_value = 0\<rparr>\<rparr>)"

definition row_step :: "js_string \<Rightarrow> nat \<Rightarrow> CellExplain" where
  "row_step b j =
     \<lparr>ce_i = 0, ce_j = j, aChar = Some empty_mark, bChar = char_at b (j - 1), cost = j,
      candidates = [\<lparr>c_op = Insert, c_from = Some (0, j - 1), c_value = j\<rparr>],
      chosen = \<lparr>c_op = Insert, c_from = Some (0, j - 1), c_value = j\<rparr>\<rparr>"

definition cell_step :: "js_string \<Rightarrow> js_string \<Rightarrow> nat \<Rightarrow> nat \<Rightarrow> CellExplain" where
  "cell_step a b i j =
     \<lparr>ce_i = i, ce_j = j, aChar = char_at a (i - 1), bChar = char_at b (j - 1),
      cost = dist_at a b i j, candidates = cell_cands a b i j, chosen = cell_chosen a b i j\<rparr>"

text \<open>The entry of \<open>parent\<close> for each kind of cell.\<close>

definition col_link :: "nat \<Rightarrow> parent_link option" where
  "col_link i = (if i = 0 then None else Some \<lparr>p_i = int i - 1, p_j = 0, p_op = Delete\<rparr>)"

definition row_link :: "nat \<Rightarrow> parent_link option" where
  "row_link j = Some \<lparr>p_i = 0, p_j = int j - 1, p_op = Insert\<rparr>"

definition cell_link :: "js_string \<Rightarrow> js_string \<Rightarrow> nat \<Rightarrow> nat \<Rightarrow> parent_link option" where
  "cell_link a b i j =
     (case c_from (cell_chosen a b i j) of
        Some (fi, fj) \<Rightarrow>
          Some \<lparr>p_i = int fi, p_j = int fj, p_op = c_op (cell_chosen a b i j)\<rparr>
      | None \<Rightarrow> None)"

definition link_at :: "js_string \<Rightarrow> js_string \<Rightarrow> nat \<Rightarrow> nat \<Rightarrow> parent_link option" where
  "link_at a b i j =
     (if j = 0 then col_link i else if i = 0 then row_link j else cell_link a b i j)"

text \<open>The Steps in the order the three loops push them.\<close>

definition interior_steps :: "js_string \<Rightarrow> js_string \<Rightarrow> nat \<Rightarrow> nat \<Rightarrow> CellExplain list" where
  "interior_steps a b m n =
     concat (map (\<lambda>i. map (cell_step a b i) [1..<n + 1]) [1..<m + 1])"

definition all_steps :: "js_string \<Rightarrow> js_string \<Rightarrow> CellExplain list" where
  "all_steps a b =
     map (col_step a) [0..<length a + 1] @ map (row_step b) [1..<length b + 1] @
     interior_steps a b (length a) (length b)"

section \<open>Parent links that lead towards the origin\<close>

text \<open>
  Vocabulary for the walk of \<open>buildBacktrace\<close>: a link stored at the cell \<open>(i, j)\<close> of the
  table leads one cell up when its operation is delete, one cell left when it is insert,
  and one cell up and left when it is match or replace; it never leads below 0.
\<close>

definition step_back :: "parent_link \<Rightarrow> nat \<Rightarrow> nat \<Rightarrow> bool" where
  "step_back p i j \<longleftrightarrow>
     0 \<le> p_i p \<and> 0 \<le> p_j p \<and>
     ((p_op p = Delete \<and> p_i p + 1 = int i \<and> p_j p = int j) \<or>
      (p_op p = Insert \<and> p_i p = int i \<and> p_j p + 1 = int j) \<or>
      ((p_op p = Match \<or> p_op p = Replace) \<and> p_i p + 1 = int i \<and> p_j p + 1 = int j))"

text \<open>
  The cell \<open>c'\<close> is the one the link stored at the cell \<open>c\<close> points to, and it lies one
  cell up, left, or up and left of \<open>c\<close>.
\<close>

definition follows :: "parent_table \<Rightarrow> int \<times> int \<Rightarrow> int \<times> int \<Rightarrow> bool" where
  "follows ptab c c' \<longleftrightarrow>
     (\<exists>p. lookup_link ptab (fst c) (snd c) = Some p \<and> c' = (p_i p, p_j p)) \<and>
     (c = (fst c' + 1, snd c') \<or> c = (fst c', snd c' + 1) \<or> c = (fst c' + 1, snd c' + 1))"

text \<open>
  Every cell of the table except the origin has a link, and every link leads back.
\<close>

definition links_back :: "nat \<Rightarrow> nat \<Rightarrow> parent_table \<Rightarrow> bool" where
  "links_back m n ptab \<longleftrightarrow>
     (\<forall>i \<le> m. \<forall>j \<le> n.
        case lookup_link ptab (int i) (int j) of
          None \<Rightarrow> i = 0 \<and> j = 0
        | Some p \<Rightarrow> step_back p i j)"

section \<open>Reference edit distance\<close>

text \<open>
  The textbook recursion on the two sequences, written from the definition of the
  Levenshtein distance and not from the program: deleting or inserting an element costs 1,
  substituting costs 1, keeping an equal element costs 0.
\<close>

fun lev :: "'a list \<Rightarrow> 'a list \<Rightarrow> nat" where
  "lev [] ys = length ys"
| "lev xs [] = length xs"
| "lev (x # xs) (y # ys) =
     min (lev xs (y # ys) + 1)
       (min (lev (x # xs) ys + 1) (lev xs ys + (if x = y then 0 else 1)))"

text \<open>
  What the recursion computes: an alignment walks both sequences from the left and, at
  each position, keeps an equal element at no cost, or substitutes, deletes or inserts
  one element at cost 1. \<open>aligned xs ys k\<close> says that some alignment turns \<open>xs\<close> into
  \<open>ys\<close> at cost \<open>k\<close>; \<open>lev xs ys\<close> is the least such cost (lemmas \<open>lev_aligned\<close> and
  \<open>lev_least\<close>).
\<close>

inductive aligned :: "'a list \<Rightarrow> 'a list \<Rightarrow> nat \<Rightarrow> bool" where
  finish: "aligned [] [] 0"
| keep: "aligned xs ys k \<Longrightarrow> aligned (x # xs) (x # ys) k"
| substitute: "aligned xs ys k \<Longrightarrow> aligned (x # xs) (y # ys) (Suc k)"
| delete: "aligned xs ys k \<Longrightarrow> aligned (x # xs) ys (Suc k)"
| insert: "aligned xs ys k \<Longrightarrow> aligned xs (y # ys) (Suc k)"

section \<open>The loops produce these values\<close>

lemma rd_ok: "rect m n t \<Longrightarrow> i \<le> m \<Longrightarrow> j \<le> n \<Longrightarrow> rd t i j = Inr (t ! i ! j)"
  by (simp add: rect_def rd_def)

lemma wr_ok:
  "rect m n t \<Longrightarrow> i \<le> m \<Longrightarrow> j \<le> n \<Longrightarrow> wr t i j v = Inr (t[i := (t ! i)[j := v]])"
  by (simp add: rect_def wr_def)

lemma rect_upd: "rect m n t \<Longrightarrow> rect m n (t[i := (t ! i)[j := v]])"
  by (cases "i < length t") (auto simp: rect_def nth_list_update)

lemma nth_upd:
  "rect m n t \<Longrightarrow> i' \<le> m \<Longrightarrow> j' \<le> n \<Longrightarrow>
   t[i := (t ! i)[j := v]] ! i' ! j' = (if i' = i \<and> j' = j then v else t ! i' ! j')"
  by (cases "i < length t") (auto simp: rect_def nth_list_update)

lemma rect_replicate: "rect m n (replicate (m + 1) (replicate (n + 1) v))"
  by (simp add: rect_def nth_Cons')

lemma init_col_body_ok:
  assumes "rect m n (dp s)" "rect m n (parent s)" "i \<le> m"
  shows "init_col_body a i s =
         Inr \<lparr>dp = (dp s)[i := (dp s ! i)[0 := i]], steps = steps s @ [col_step a i],
              parent = (parent s)[i := (parent s ! i)[0 := col_link i]]\<rparr>"
  using assms
  by (simp add: init_col_body_def wr_ok [of m n] rd_ok [of m n] rect_upd nth_upd [of m n]
      col_step_def col_link_def)

lemma init_row_body_ok:
  assumes "rect m n (dp s)" "rect m n (parent s)" "j \<le> n"
  shows "init_row_body b j s =
         Inr \<lparr>dp = (dp s)[0 := (dp s ! 0)[j := j]], steps = steps s @ [row_step b j],
              parent = (parent s)[0 := (parent s ! 0)[j := row_link j]]\<rparr>"
  using assms
  by (simp add: init_row_body_def wr_ok [of m n] rd_ok [of m n] rect_upd nth_upd [of m n]
      row_step_def row_link_def)


lemma init_col_ok:
  assumes "rect m n (dp s)" "rect m n (parent s)" "i \<le> m + 1"
  shows "\<exists>s'. init_col a m i s = Inr s' \<and> rect m n (dp s') \<and> rect m n (parent s') \<and>
           steps s' = steps s @ map (col_step a) [i..<m + 1] \<and>
           (\<forall>i' \<le> m. \<forall>j' \<le> n.
              dp s' ! i' ! j' = (if j' = 0 \<and> i \<le> i' then i' else dp s ! i' ! j') \<and>
              parent s' ! i' ! j' =
                (if j' = 0 \<and> i \<le> i' then col_link i' else parent s ! i' ! j'))"
  using assms
proof (induction "m + 1 - i" arbitrary: i s)
  case 0
  then have "\<not> i \<le> m" by simp
  then show ?case using "0.prems" by (subst init_col.simps) (simp add: upt_rec)
next
  case (Suc k)
  then have le: "i \<le> m" by simp
  let ?s1 = "\<lparr>dp = (dp s)[i := (dp s ! i)[0 := i]], steps = steps s @ [col_step a i],
              parent = (parent s)[i := (parent s ! i)[0 := col_link i]]\<rparr>"
  have body: "init_col_body a i s = Inr ?s1"
    using Suc.prems le by (rule_tac init_col_body_ok) auto
  have "k = m + 1 - (i + 1)" using Suc.hyps(2) by simp
  moreover have "rect m n (dp ?s1)" "rect m n (parent ?s1)"
    using Suc.prems by (simp_all add: rect_upd)
  moreover have "i + 1 \<le> m + 1" using le by simp
  ultimately obtain s' where s':
    "init_col a m (i + 1) ?s1 = Inr s'" "rect m n (dp s')" "rect m n (parent s')"
    "steps s' = steps ?s1 @ map (col_step a) [i + 1..<m + 1]"
    "\<forall>i' \<le> m. \<forall>j' \<le> n.
       dp s' ! i' ! j' = (if j' = 0 \<and> i + 1 \<le> i' then i' else dp ?s1 ! i' ! j') \<and>
       parent s' ! i' ! j' =
         (if j' = 0 \<and> i + 1 \<le> i' then col_link i' else parent ?s1 ! i' ! j')"
    using Suc.hyps(1) [of "i + 1" ?s1] by blast
  have run: "init_col a m i s = Inr s'"
    using le body s'(1) by (subst init_col.simps) simp
  have st: "steps s' = steps s @ map (col_step a) [i..<m + 1]"
    using s'(4) le by (simp add: upt_conv_Cons del: upt_Suc)
  have cells: "\<forall>i' \<le> m. \<forall>j' \<le> n.
       dp s' ! i' ! j' = (if j' = 0 \<and> i \<le> i' then i' else dp s ! i' ! j') \<and>
       parent s' ! i' ! j' = (if j' = 0 \<and> i \<le> i' then col_link i' else parent s ! i' ! j')"
  proof (intro allI impI)
    fix i' j' assume b: "i' \<le> m" "j' \<le> n"
    have "dp ?s1 ! i' ! j' = (if i' = i \<and> j' = 0 then i else dp s ! i' ! j')"
      using nth_upd [OF Suc.prems(1) b] by simp
    moreover have "parent ?s1 ! i' ! j' = (if i' = i \<and> j' = 0 then col_link i else parent s ! i' ! j')"
      using nth_upd [OF Suc.prems(2) b] by simp
    ultimately show "dp s' ! i' ! j' = (if j' = 0 \<and> i \<le> i' then i' else dp s ! i' ! j') \<and>
       parent s' ! i' ! j' = (if j' = 0 \<and> i \<le> i' then col_link i' else parent s ! i' ! j')"
      using s'(5) [rule_format, OF b] by (cases "i' = i"; cases "j' = 0"; auto simp: Suc_le_eq)
  qed
  show ?case using run s'(2,3) st cells by blast
qed


lemma init_row_ok:
  assumes "rect m n (dp s)" "rect m n (parent s)" "j \<le> n + 1"
  shows "\<exists>s'. init_row b n j s = Inr s' \<and> rect m n (dp s') \<and> rect m n (parent s') \<and>
           steps s' = steps s @ map (row_step b) [j..<n + 1] \<and>
           (\<forall>i' \<le> m. \<forall>j' \<le> n.
              dp s' ! i' ! j' = (if i' = 0 \<and> j \<le> j' then j' else dp s ! i' ! j') \<and>
              parent s' ! i' ! j' =
                (if i' = 0 \<and> j \<le> j' then row_link j' else parent s ! i' ! j'))"
  using assms
proof (induction "n + 1 - j" arbitrary: j s)
  case 0
  then have "\<not> j \<le> n" by simp
  then show ?case using "0.prems" by (subst init_row.simps) (simp add: upt_rec)
next
  case (Suc k)
  then have le: "j \<le> n" by simp
  let ?s1 = "\<lparr>dp = (dp s)[0 := (dp s ! 0)[j := j]], steps = steps s @ [row_step b j],
              parent = (parent s)[0 := (parent s ! 0)[j := row_link j]]\<rparr>"
  have body: "init_row_body b j s = Inr ?s1"
    using Suc.prems le by (rule_tac init_row_body_ok) auto
  have "k = n + 1 - (j + 1)" using Suc.hyps(2) by simp
  moreover have "rect m n (dp ?s1)" "rect m n (parent ?s1)"
    using Suc.prems by (simp_all add: rect_upd)
  moreover have "j + 1 \<le> n + 1" using le by simp
  ultimately obtain s' where s':
    "init_row b n (j + 1) ?s1 = Inr s'" "rect m n (dp s')" "rect m n (parent s')"
    "steps s' = steps ?s1 @ map (row_step b) [j + 1..<n + 1]"
    "\<forall>i' \<le> m. \<forall>j' \<le> n.
       dp s' ! i' ! j' = (if i' = 0 \<and> j + 1 \<le> j' then j' else dp ?s1 ! i' ! j') \<and>
       parent s' ! i' ! j' =
         (if i' = 0 \<and> j + 1 \<le> j' then row_link j' else parent ?s1 ! i' ! j')"
    using Suc.hyps(1) [of "j + 1" ?s1] by blast
  have run: "init_row b n j s = Inr s'"
    using le body s'(1) by (subst init_row.simps) simp
  have st: "steps s' = steps s @ map (row_step b) [j..<n + 1]"
    using s'(4) le by (simp add: upt_conv_Cons del: upt_Suc)
  have cells: "\<forall>i' \<le> m. \<forall>j' \<le> n.
       dp s' ! i' ! j' = (if i' = 0 \<and> j \<le> j' then j' else dp s ! i' ! j') \<and>
       parent s' ! i' ! j' = (if i' = 0 \<and> j \<le> j' then row_link j' else parent s ! i' ! j')"
  proof (intro allI impI)
    fix i' j' assume b: "i' \<le> m" "j' \<le> n"
    have "dp ?s1 ! i' ! j' = (if i' = 0 \<and> j' = j then j else dp s ! i' ! j')"
      using nth_upd [OF Suc.prems(1) b] by simp
    moreover have "parent ?s1 ! i' ! j' =
        (if i' = 0 \<and> j' = j then row_link j else parent s ! i' ! j')"
      using nth_upd [OF Suc.prems(2) b] by simp
    ultimately show "dp s' ! i' ! j' = (if i' = 0 \<and> j \<le> j' then j' else dp s ! i' ! j') \<and>
       parent s' ! i' ! j' = (if i' = 0 \<and> j \<le> j' then row_link j' else parent s ! i' ! j')"
      using s'(5) [rule_format, OF b] by (cases "j' = j"; cases "i' = 0"; auto simp: Suc_le_eq)
  qed
  show ?case using run s'(2,3) st cells by blast
qed

lemma cell_chosen_value:
  "c_value (cell_chosen a b (Suc i) (Suc j)) = dist_at a b (Suc i) (Suc j)"
  by (simp add: cell_chosen_def cell_cands_def Let_def min_def)

lemma fill_body_ok:
  assumes "rect m n (dp s)" "rect m n (parent s)" "1 \<le> i" "i \<le> m" "1 \<le> j" "j \<le> n"
    and "dp s ! (i - 1) ! j = dist_at a b (i - 1) j"
    and "dp s ! i ! (j - 1) = dist_at a b i (j - 1)"
    and "dp s ! (i - 1) ! (j - 1) = dist_at a b (i - 1) (j - 1)"
  shows "fill_body a b i j s =
         Inr \<lparr>dp = (dp s)[i := (dp s ! i)[j := dist_at a b i j]],
              steps = steps s @ [cell_step a b i j],
              parent = (parent s)[i := (parent s ! i)[j := cell_link a b i j]]\<rparr>"
proof -
  obtain i0 j0 where ij: "i = Suc i0" "j = Suc j0"
    using assms(3,5) by (metis One_nat_def Suc_le_D)
  have v: "c_value (cell_chosen a b i j) = dist_at a b i j"
    unfolding ij by (rule cell_chosen_value)
  have r1: "rd (dp s) (i - 1) j = Inr (dist_at a b (i - 1) j)"
    using assms by (simp add: rd_ok [of m n])
  have r2: "rd (dp s) i (j - 1) = Inr (dist_at a b i (j - 1))"
    using assms by (simp add: rd_ok [of m n])
  have r3: "rd (dp s) (i - 1) (j - 1) = Inr (dist_at a b (i - 1) (j - 1))"
    using assms by (simp add: rd_ok [of m n])
  have w1: "wr (dp s) i j (dist_at a b i j) = Inr ((dp s)[i := (dp s ! i)[j := dist_at a b i j]])"
    using assms by (simp add: wr_ok [of m n])
  have w2: "wr (parent s) i j (cell_link a b i j)
      = Inr ((parent s)[i := (parent s ! i)[j := cell_link a b i j]])"
    using assms by (simp add: wr_ok [of m n])
  have r4: "rd ((dp s)[i := (dp s ! i)[j := dist_at a b i j]]) i j = Inr (dist_at a b i j)"
    using assms by (simp add: rd_ok [of m n] rect_upd nth_upd [of m n])
  have cs: "[\<lparr>c_op = Delete, c_from = Some (i - 1, j), c_value = dist_at a b (i - 1) j + 1\<rparr>,
             \<lparr>c_op = Insert, c_from = Some (i, j - 1), c_value = dist_at a b i (j - 1) + 1\<rparr>,
             \<lparr>c_op = (if char_at a (i - 1) = char_at b (j - 1) then Match else Replace),
              c_from = Some (i - 1, j - 1), c_value = dist_at a b (i - 1) (j - 1) + (if char_at a (i - 1) = char_at b (j - 1) then 0 else 1)\<rparr>] = cell_cands a b i j"
    by (simp add: cell_cands_def)
  show ?thesis
    unfolding fill_body_def r1 r2 r3 sum.case
    apply (simp only: Let_def)
    apply (simp only: cs)
    apply (fold cell_chosen_def [unfolded Let_def])
    apply (simp only: v w1 sum.case)
    apply (fold cell_link_def)
    apply (simp only: w2 r4 sum.case cell_step_def)
    done
qed

lemma fill_row_ok:
  assumes "rect m n (dp s)" "rect m n (parent s)" "1 \<le> i" "i \<le> m" "1 \<le> j" "j \<le> n + 1"
    and "\<forall>i' \<le> m. \<forall>j' \<le> n. i' < i \<or> (i' = i \<and> j' < j) \<longrightarrow>
           dp s ! i' ! j' = dist_at a b i' j'"
  shows "\<exists>s'. fill_row a b n i j s = Inr s' \<and> rect m n (dp s') \<and> rect m n (parent s') \<and>
           steps s' = steps s @ map (cell_step a b i) [j..<n + 1] \<and>
           (\<forall>i' \<le> m. \<forall>j' \<le> n.
              dp s' ! i' ! j' =
                (if i' = i \<and> j \<le> j' then dist_at a b i' j' else dp s ! i' ! j') \<and>
              parent s' ! i' ! j' =
                (if i' = i \<and> j \<le> j' then cell_link a b i' j' else parent s ! i' ! j'))"
  using assms
proof (induction "n + 1 - j" arbitrary: j s)
  case 0
  then have "\<not> j \<le> n" by simp
  then show ?case using "0.prems" by (subst fill_row.simps) (simp add: upt_rec)
next
  case (Suc k)
  then have le: "j \<le> n" by simp
  note known = Suc.prems(7)
  let ?s1 = "\<lparr>dp = (dp s)[i := (dp s ! i)[j := dist_at a b i j]],
              steps = steps s @ [cell_step a b i j],
              parent = (parent s)[i := (parent s ! i)[j := cell_link a b i j]]\<rparr>"
  have k1: "dp s ! (i - 1) ! j = dist_at a b (i - 1) j"
    using known Suc.prems(3,4) le by simp
  have k2: "dp s ! i ! (j - 1) = dist_at a b i (j - 1)"
    using known Suc.prems(4,5) le by simp
  have k3: "dp s ! (i - 1) ! (j - 1) = dist_at a b (i - 1) (j - 1)"
    using known Suc.prems(3,4) le by simp
  have body: "fill_body a b i j s = Inr ?s1"
    using Suc.prems(1-5) le k1 k2 k3 by (rule fill_body_ok)
  have upd_dp: "dp ?s1 ! i' ! j' = (if i' = i \<and> j' = j then dist_at a b i j else dp s ! i' ! j')"
    if "i' \<le> m" "j' \<le> n" for i' j'
    using nth_upd [OF Suc.prems(1) that] by simp
  have upd_parent: "parent ?s1 ! i' ! j' =
      (if i' = i \<and> j' = j then cell_link a b i j else parent s ! i' ! j')"
    if "i' \<le> m" "j' \<le> n" for i' j'
    using nth_upd [OF Suc.prems(2) that] by simp
  have "k = n + 1 - (j + 1)" using Suc.hyps(2) by simp
  moreover have "rect m n (dp ?s1)" "rect m n (parent ?s1)"
    using Suc.prems by (simp_all add: rect_upd)
  moreover have "1 \<le> j + 1" "j + 1 \<le> n + 1" using le by simp_all
  moreover have "\<forall>i' \<le> m. \<forall>j' \<le> n. i' < i \<or> (i' = i \<and> j' < j + 1) \<longrightarrow>
           dp ?s1 ! i' ! j' = dist_at a b i' j'"
  proof (intro allI impI)
    fix i' j' assume b: "i' \<le> m" "j' \<le> n" and c: "i' < i \<or> (i' = i \<and> j' < j + 1)"
    show "dp ?s1 ! i' ! j' = dist_at a b i' j'"
    proof (cases "i' = i \<and> j' = j")
      case True
      then show ?thesis using upd_dp [OF b] by simp
    next
      case False
      then have "i' < i \<or> (i' = i \<and> j' < j)" using c by auto
      then have "dp s ! i' ! j' = dist_at a b i' j'" using known b by blast
      then show ?thesis using upd_dp [OF b] False by simp
    qed
  qed
  ultimately obtain s' where s':
    "fill_row a b n i (j + 1) ?s1 = Inr s'" "rect m n (dp s')" "rect m n (parent s')"
    "steps s' = steps ?s1 @ map (cell_step a b i) [j + 1..<n + 1]"
    "\<forall>i' \<le> m. \<forall>j' \<le> n.
       dp s' ! i' ! j' =
         (if i' = i \<and> j + 1 \<le> j' then dist_at a b i' j' else dp ?s1 ! i' ! j') \<and>
       parent s' ! i' ! j' =
         (if i' = i \<and> j + 1 \<le> j' then cell_link a b i' j' else parent ?s1 ! i' ! j')"
    using Suc.hyps(1) [of "j + 1" ?s1] Suc.prems(3,4) by blast
  have run: "fill_row a b n i j s = Inr s'"
    using le body s'(1) by (subst fill_row.simps) simp
  have st: "steps s' = steps s @ map (cell_step a b i) [j..<n + 1]"
    using s'(4) le by (simp add: upt_conv_Cons del: upt_Suc)
  have cells: "\<forall>i' \<le> m. \<forall>j' \<le> n.
       dp s' ! i' ! j' =
         (if i' = i \<and> j \<le> j' then dist_at a b i' j' else dp s ! i' ! j') \<and>
       parent s' ! i' ! j' =
         (if i' = i \<and> j \<le> j' then cell_link a b i' j' else parent s ! i' ! j')"
  proof (intro allI impI)
    fix i' j' assume b: "i' \<le> m" "j' \<le> n"
    show "dp s' ! i' ! j' =
         (if i' = i \<and> j \<le> j' then dist_at a b i' j' else dp s ! i' ! j') \<and>
       parent s' ! i' ! j' =
         (if i' = i \<and> j \<le> j' then cell_link a b i' j' else parent s ! i' ! j')"
      using s'(5) [rule_format, OF b] upd_dp [OF b] upd_parent [OF b]
      by (cases "j' = j"; cases "i' = i"; auto simp: Suc_le_eq)
  qed
  show ?case using run s'(2,3) st cells by blast
qed

lemma fill_rows_ok:
  assumes "rect m n (dp s)" "rect m n (parent s)" "1 \<le> i" "i \<le> m + 1"
    and "\<forall>i' \<le> m. \<forall>j' \<le> n. i' < i \<or> j' = 0 \<longrightarrow> dp s ! i' ! j' = dist_at a b i' j'"
  shows "\<exists>s'. fill_rows a b m n i s = Inr s' \<and> rect m n (dp s') \<and> rect m n (parent s') \<and>
           steps s' = steps s @ concat (map (\<lambda>i. map (cell_step a b i) [1..<n + 1]) [i..<m + 1]) \<and>
           (\<forall>i' \<le> m. \<forall>j' \<le> n.
              dp s' ! i' ! j' =
                (if i \<le> i' \<and> 1 \<le> j' then dist_at a b i' j' else dp s ! i' ! j') \<and>
              parent s' ! i' ! j' =
                (if i \<le> i' \<and> 1 \<le> j' then cell_link a b i' j' else parent s ! i' ! j'))"
  using assms
proof (induction "m + 1 - i" arbitrary: i s)
  case 0
  then have "\<not> i \<le> m" by simp
  then show ?case using "0.prems" by (subst fill_rows.simps) (simp add: upt_rec)
next
  case (Suc k)
  then have le: "i \<le> m" by simp
  note known = Suc.prems(5)
  have "\<forall>i' \<le> m. \<forall>j' \<le> n. i' < i \<or> (i' = i \<and> j' < 1) \<longrightarrow>
           dp s ! i' ! j' = dist_at a b i' j'"
    using known by auto
  then obtain s1 where s1:
    "fill_row a b n i 1 s = Inr s1" "rect m n (dp s1)" "rect m n (parent s1)"
    "steps s1 = steps s @ map (cell_step a b i) [1..<n + 1]"
    "\<forall>i' \<le> m. \<forall>j' \<le> n.
       dp s1 ! i' ! j' =
         (if i' = i \<and> 1 \<le> j' then dist_at a b i' j' else dp s ! i' ! j') \<and>
       parent s1 ! i' ! j' =
         (if i' = i \<and> 1 \<le> j' then cell_link a b i' j' else parent s ! i' ! j')"
    using fill_row_ok [OF Suc.prems(1,2,3) le, of 1 a b] by auto
  have "k = m + 1 - (i + 1)" using Suc.hyps(2) by simp
  moreover have "1 \<le> i + 1" "i + 1 \<le> m + 1" using le by simp_all
  moreover have "\<forall>i' \<le> m. \<forall>j' \<le> n. i' < i + 1 \<or> j' = 0 \<longrightarrow>
      dp s1 ! i' ! j' = dist_at a b i' j'"
  proof (intro allI impI)
    fix i' j' assume b: "i' \<le> m" "j' \<le> n" and c: "i' < i + 1 \<or> j' = 0"
    show "dp s1 ! i' ! j' = dist_at a b i' j'"
    proof (cases "i' = i \<and> 1 \<le> j'")
      case True
      then show ?thesis using s1(5) b by simp
    next
      case False
      then have "i' < i \<or> j' = 0" using c by auto
      then have "dp s ! i' ! j' = dist_at a b i' j'" using known b by blast
      then show ?thesis using s1(5) [rule_format, OF b] False by simp
    qed
  qed
  ultimately obtain s' where s':
    "fill_rows a b m n (i + 1) s1 = Inr s'" "rect m n (dp s')" "rect m n (parent s')"
    "steps s' = steps s1 @
       concat (map (\<lambda>i. map (cell_step a b i) [1..<n + 1]) [i + 1..<m + 1])"
    "\<forall>i' \<le> m. \<forall>j' \<le> n.
       dp s' ! i' ! j' =
         (if i + 1 \<le> i' \<and> 1 \<le> j' then dist_at a b i' j' else dp s1 ! i' ! j') \<and>
       parent s' ! i' ! j' =
         (if i + 1 \<le> i' \<and> 1 \<le> j' then cell_link a b i' j' else parent s1 ! i' ! j')"
    using Suc.hyps(1) [of "i + 1" s1] s1(2,3) by blast
  have run: "fill_rows a b m n i s = Inr s'"
    using le s1(1) s'(1) by (subst fill_rows.simps) simp
  have st: "steps s' = steps s @
       concat (map (\<lambda>i. map (cell_step a b i) [1..<n + 1]) [i..<m + 1])"
    using s'(4) s1(4) le by (simp add: upt_conv_Cons del: upt_Suc)
  have cells: "\<forall>i' \<le> m. \<forall>j' \<le> n.
       dp s' ! i' ! j' =
         (if i \<le> i' \<and> 1 \<le> j' then dist_at a b i' j' else dp s ! i' ! j') \<and>
       parent s' ! i' ! j' =
         (if i \<le> i' \<and> 1 \<le> j' then cell_link a b i' j' else parent s ! i' ! j')"
  proof (intro allI impI)
    fix i' j' assume b: "i' \<le> m" "j' \<le> n"
    show "dp s' ! i' ! j' =
         (if i \<le> i' \<and> 1 \<le> j' then dist_at a b i' j' else dp s ! i' ! j') \<and>
       parent s' ! i' ! j' =
         (if i \<le> i' \<and> 1 \<le> j' then cell_link a b i' j' else parent s ! i' ! j')"
      using s'(5) [rule_format, OF b] s1(5) [rule_format, OF b]
      by (cases "i' = i"; cases "1 \<le> j'"; auto simp: Suc_le_eq)
  qed
  show ?case using run s'(2,3) st cells by blast
qed

lemma dist_at_col: "dist_at a b i 0 = i"
  by (cases i) simp_all

text \<open>The result of the builder, cell by cell.\<close>

lemma builder_result:
  "\<exists>r. computeEditDistanceSteps a b = Inr r \<and>
       rect (length a) (length b) (dp r) \<and> rect (length a) (length b) (parent r) \<and>
       steps r = all_steps a b \<and>
       (\<forall>i \<le> length a. \<forall>j \<le> length b.
          dp r ! i ! j = dist_at a b i j \<and> parent r ! i ! j = link_at a b i j)"
proof -
  let ?m = "length a" and ?n = "length b"
  let ?s0 = "\<lparr>dp = replicate (?m + 1) (replicate (?n + 1) 0), steps = [],
              parent = replicate (?m + 1) (replicate (?n + 1) None)\<rparr>"
  have r0: "rect ?m ?n (dp ?s0)" "rect ?m ?n (parent ?s0)"
    using rect_replicate [of ?m ?n] by simp_all
  obtain s1 where s1:
    "init_col a ?m 0 ?s0 = Inr s1" "rect ?m ?n (dp s1)" "rect ?m ?n (parent s1)"
    "steps s1 = steps ?s0 @ map (col_step a) [0..<?m + 1]"
    "\<forall>i' \<le> ?m. \<forall>j' \<le> ?n.
       dp s1 ! i' ! j' = (if j' = 0 \<and> 0 \<le> i' then i' else dp ?s0 ! i' ! j') \<and>
       parent s1 ! i' ! j' = (if j' = 0 \<and> 0 \<le> i' then col_link i' else parent ?s0 ! i' ! j')"
    using init_col_ok [OF r0, of 0 a] by auto
  obtain s2 where s2:
    "init_row b ?n 1 s1 = Inr s2" "rect ?m ?n (dp s2)" "rect ?m ?n (parent s2)"
    "steps s2 = steps s1 @ map (row_step b) [1..<?n + 1]"
    "\<forall>i' \<le> ?m. \<forall>j' \<le> ?n.
       dp s2 ! i' ! j' = (if i' = 0 \<and> 1 \<le> j' then j' else dp s1 ! i' ! j') \<and>
       parent s2 ! i' ! j' = (if i' = 0 \<and> 1 \<le> j' then row_link j' else parent s1 ! i' ! j')"
    using init_row_ok [OF s1(2,3), of 1 b] by auto
  have known: "\<forall>i' \<le> ?m. \<forall>j' \<le> ?n. i' < 1 \<or> j' = 0 \<longrightarrow>
      dp s2 ! i' ! j' = dist_at a b i' j'"
  proof (intro allI impI)
    fix i' j' assume b: "i' \<le> ?m" "j' \<le> ?n" and c: "i' < 1 \<or> j' = 0"
    show "dp s2 ! i' ! j' = dist_at a b i' j'"
      using s2(5) [rule_format, OF b] s1(5) [rule_format, OF b] c
      by (cases "j' = 0") (auto simp: dist_at_col)
  qed
  obtain r where r:
    "fill_rows a b ?m ?n 1 s2 = Inr r" "rect ?m ?n (dp r)" "rect ?m ?n (parent r)"
    "steps r = steps s2 @
       concat (map (\<lambda>i. map (cell_step a b i) [1..<?n + 1]) [1..<?m + 1])"
    "\<forall>i' \<le> ?m. \<forall>j' \<le> ?n.
       dp r ! i' ! j' =
         (if 1 \<le> i' \<and> 1 \<le> j' then dist_at a b i' j' else dp s2 ! i' ! j') \<and>
       parent r ! i' ! j' =
         (if 1 \<le> i' \<and> 1 \<le> j' then cell_link a b i' j' else parent s2 ! i' ! j')"
    using fill_rows_ok [OF s2(2,3) _ _ known] by auto
  have run: "computeEditDistanceSteps a b = Inr r"
    using s1(1) s2(1) r(1) by (simp add: computeEditDistanceSteps_def Let_def)
  have st: "steps r = all_steps a b"
    using r(4) s2(4) s1(4) by (simp add: all_steps_def interior_steps_def)
  have cells: "\<forall>i \<le> ?m. \<forall>j \<le> ?n.
          dp r ! i ! j = dist_at a b i j \<and> parent r ! i ! j = link_at a b i j"
  proof (intro allI impI)
    fix i j assume b: "i \<le> ?m" "j \<le> ?n"
    have "dp r ! i ! j = dist_at a b i j"
    proof (cases "1 \<le> i \<and> 1 \<le> j")
      case True
      then show ?thesis using r(5) [rule_format, OF b] by simp
    next
      case False
      then have "i < 1 \<or> j = 0" by auto
      then have "dp s2 ! i ! j = dist_at a b i j" using known b by blast
      then show ?thesis using r(5) [rule_format, OF b] False by simp
    qed
    moreover have "parent r ! i ! j = link_at a b i j"
      using r(5) [rule_format, OF b] s2(5) [rule_format, OF b] s1(5) [rule_format, OF b]
      by (cases "i = 0"; cases "j = 0"; simp add: link_at_def)
    ultimately show "dp r ! i ! j = dist_at a b i j \<and> parent r ! i ! j = link_at a b i j" ..
  qed
  show ?thesis using run r(2,3) st cells by blast
qed

section \<open>The reference distance, read from the end of the sequences\<close>

lemma lev_Nil2: "lev xs [] = length xs"
  by (cases xs) simp_all

lemma lev_snoc_Nil1:
  "lev [x] (ys @ [y]) =
     min (length ys + 2) (min (lev [x] ys + 1) (length ys + (if x = y then 0 else 1)))"
proof (induction ys)
  case Nil
  then show ?case by simp
next
  case (Cons z zs)
  have "lev [x] ((z # zs) @ [y]) =
      min (length (zs @ [y]) + 2)
        (min (lev [x] (zs @ [y]) + 1) (length (zs @ [y]) + (if x = z then 0 else 1)))"
    by simp
  also have "\<dots> = min (length (z # zs) + 2)
      (min (lev [x] (z # zs) + 1) (length (z # zs) + (if x = y then 0 else 1)))"
    unfolding Cons.IH by (simp del: min_Suc_Suc)
  finally show ?case .
qed

lemma lev_snoc_Nil2:
  "lev (xs @ [x]) [y] =
     min (lev xs [y] + 1) (min (length xs + 2) (length xs + (if x = y then 0 else 1)))"
proof (induction xs)
  case Nil
  then show ?case by simp
next
  case (Cons z zs)
  have "lev ((z # zs) @ [x]) [y] =
      min (lev (zs @ [x]) [y] + 1)
        (min (length (zs @ [x]) + 2) (length (zs @ [x]) + (if z = y then 0 else 1)))"
    by (simp add: lev_Nil2 min.commute min.left_commute)
  also have "\<dots> = min (lev (z # zs) [y] + 1)
      (min (length (z # zs) + 2) (length (z # zs) + (if x = y then 0 else 1)))"
    unfolding Cons.IH by (simp add: lev_Nil2 del: min_Suc_Suc)
  finally show ?case .
qed

lemma min9:
  fixes p1 p2 p3 p4 p5 p6 p7 p8 p9 d e :: nat
  shows "min (min (p1 + 1) (min (p2 + 1) (p3 + d)) + 1)
           (min (min (p4 + 1) (min (p5 + 1) (p6 + d)) + 1)
              (min (p7 + 1) (min (p8 + 1) (p9 + d)) + e)) =
         min (min (p1 + 1) (min (p4 + 1) (p7 + e)) + 1)
           (min (min (p2 + 1) (min (p5 + 1) (p8 + e)) + 1)
              (min (p3 + 1) (min (p6 + 1) (p9 + e)) + d))"
  apply (simp only: min_add_distrib_left min_add_distrib_right)
  apply (simp only: min.assoc min.commute min.left_commute add.assoc add.commute add.left_commute)
  done

lemma lev_snoc:
  "lev (xs @ [x]) (ys @ [y]) =
     min (lev xs (ys @ [y]) + 1)
       (min (lev (xs @ [x]) ys + 1) (lev xs ys + (if x = y then 0 else 1)))"
proof (induction xs ys rule: lev.induct)
  case (1 ys)
  show ?case using lev_snoc_Nil1 [of x ys y] by simp
next
  case (2 v va)
  show ?case using lev_snoc_Nil2 [of "v # va" x y] by (simp add: lev_Nil2 del: lev.simps(3))
next
  case (3 u us v vs)
  show ?case
    apply (simp only: append_Cons lev.simps)
    apply (simp only: "3.IH" [simplified append_Cons])
    apply (rule min9)
    done
qed

lemma aligned_inserts: "aligned [] ys (length ys)"
  by (induction ys) (auto intro: aligned.intros)

lemma aligned_deletes: "aligned xs [] (length xs)"
  by (induction xs) (auto intro: aligned.intros)

lemma lev_aligned: "aligned xs ys (lev xs ys)"
proof (induction xs ys rule: lev.induct)
  case (1 ys)
  show ?case using aligned_inserts [of ys] by simp
next
  case (2 x xs)
  show ?case using aligned_deletes [of "x # xs"] by simp
next
  case (3 x xs y ys)
  let ?d = "lev xs (y # ys) + 1" and ?i = "lev (x # xs) ys + 1"
    and ?s = "lev xs ys + (if x = y then 0 else 1)"
  have d: "aligned (x # xs) (y # ys) ?d"
    using aligned.delete [OF "3.IH"(1)] by simp
  have i: "aligned (x # xs) (y # ys) ?i"
    using aligned.insert [OF "3.IH"(2)] by simp
  have s: "aligned (x # xs) (y # ys) ?s"
    using "3.IH"(3) by (cases "x = y") (auto intro: aligned.keep aligned.substitute)
  have "lev (x # xs) (y # ys) = ?d \<or> lev (x # xs) (y # ys) = ?i \<or> lev (x # xs) (y # ys) = ?s"
    by (simp add: min_def)
  then show ?case using d i s by metis
qed

lemma lev_delete: "lev (x # xs) ys \<le> lev xs ys + 1"
  by (cases ys) (simp_all add: lev_Nil2)

lemma lev_insert: "lev xs (y # ys) \<le> lev xs ys + 1"
  by (cases xs) simp_all

lemma lev_least: "aligned xs ys k \<Longrightarrow> lev xs ys \<le> k"
proof (induction rule: aligned.induct)
  case finish
  show ?case by simp
next
  case (keep xs ys k x)
  then show ?case by (simp add: min.coboundedI2)
next
  case (substitute xs ys k x y)
  then show ?case by (simp add: min.coboundedI2)
next
  case (delete xs ys k x)
  then show ?case using lev_delete [of x xs ys] by simp
next
  case (insert xs ys k y)
  then show ?case using lev_insert [of xs y ys] by simp
qed

lemma dist_at_lev:
  "i \<le> length a \<Longrightarrow> j \<le> length b \<Longrightarrow> dist_at a b i j = lev (take i a) (take j b)"
proof (induction a b i j rule: dist_at.induct)
  case (1 a b j)
  then show ?case by simp
next
  case (2 a b i)
  then show ?case by (simp add: lev_Nil2)
next
  case (3 a b i j)
  then have lt: "i < length a" "j < length b" by simp_all
  have ta: "take (Suc i) a = take i a @ [a ! i]"
    using lt(1) by (rule take_Suc_conv_app_nth)
  have tb: "take (Suc j) b = take j b @ [b ! j]"
    using lt(2) by (rule take_Suc_conv_app_nth)
  have eq: "(char_at a i = char_at b j) = (a ! i = b ! j)"
    using lt by (simp add: char_at_def)
  have "dist_at a b i (Suc j) = lev (take i a) (take (Suc j) b)"
    "dist_at a b (Suc i) j = lev (take (Suc i) a) (take j b)"
    "dist_at a b i j = lev (take i a) (take j b)"
    using "3.IH" "3.prems" by simp_all
  then show ?case
    unfolding dist_at.simps eq by (simp only: ta tb lev_snoc)
qed

section \<open>Claims about the returned cost table\<close>

text \<open>
  Claim C1. For every pair of strings \<open>a\<close> and \<open>b\<close>, \<open>computeEditDistanceSteps\<close>
  returns, and the entry \<open>dp[a.length][b.length]\<close> of the table it returns is the
  Levenshtein distance of \<open>a\<close> and \<open>b\<close> as the reference recursion \<open>lev\<close> computes it
  (unit cost for insert, delete and substitute, no cost for a match).
\<close>

theorem final_cell_is_edit_distance:
  "\<exists>r. computeEditDistanceSteps a b = Inr r \<and> dp r ! length a ! length b = lev a b"
proof -
  obtain r where r: "computeEditDistanceSteps a b = Inr r"
    "\<forall>i \<le> length a. \<forall>j \<le> length b.
       dp r ! i ! j = dist_at a b i j \<and> parent r ! i ! j = link_at a b i j"
    using builder_result [of a b] by blast
  have "dp r ! length a ! length b = dist_at a b (length a) (length b)"
    using r(2) by simp
  also have "\<dots> = lev a b"
    by (simp add: dist_at_lev)
  finally show ?thesis using r(1) by blast
qed

text \<open>The instance "kitten" and "sitting": the distance is 3.\<close>

theorem final_cell_is_edit_distance_witness:
  "\<exists>r. computeEditDistanceSteps [107, 105, 116, 116, 101, 110]
          [115, 105, 116, 116, 105, 110, 103] = Inr r \<and> dp r ! 6 ! 7 = 3"
proof -
  have "lev [107, 105, 116, 116, 101, 110 :: nat] [115, 105, 116, 116, 105, 110, 103] = 3"
    by code_simp
  moreover have "length [107, 105, 116, 116, 101, 110 :: nat] = 6"
    "length [115, 105, 116, 116, 105, 110, 103 :: nat] = 7"
    by simp_all
  ultimately show ?thesis
    using final_cell_is_edit_distance
      [of "[107, 105, 116, 116, 101, 110]" "[115, 105, 116, 116, 105, 110, 103]"]
    by (simp only:)
qed

text \<open>
  Claim C5. For every pair of strings, the returned table has \<open>dp[i][0] = i\<close> for every
  \<open>i\<close> from 0 to \<open>a.length\<close> and \<open>dp[0][j] = j\<close> for every \<open>j\<close> from 0 to
  \<open>b.length\<close>.
\<close>

theorem boundary_cells:
  "\<exists>r. computeEditDistanceSteps a b = Inr r \<and>
       (\<forall>i \<le> length a. dp r ! i ! 0 = i) \<and> (\<forall>j \<le> length b. dp r ! 0 ! j = j)"
proof -
  obtain r where r: "computeEditDistanceSteps a b = Inr r"
    "\<forall>i \<le> length a. \<forall>j \<le> length b.
       dp r ! i ! j = dist_at a b i j \<and> parent r ! i ! j = link_at a b i j"
    using builder_result [of a b] by blast
  have "dp r ! i ! 0 = i" if "i \<le> length a" for i
    using r(2) that by (simp add: dist_at_col)
  moreover have "dp r ! 0 ! j = j" if "j \<le> length b" for j
    using r(2) that by simp
  ultimately show ?thesis using r(1) by blast
qed

text \<open>The instance "ab" and "c", at the cells \<open>(2, 0)\<close> and \<open>(0, 1)\<close>.\<close>

theorem boundary_cells_witness:
  "\<exists>r. computeEditDistanceSteps [97, 98] [99] = Inr r \<and> dp r ! 2 ! 0 = 2 \<and> dp r ! 0 ! 1 = 1"
proof -
  obtain r where r: "computeEditDistanceSteps [97, 98] [99] = Inr r"
    "\<forall>i \<le> length [97, 98 :: nat]. dp r ! i ! 0 = i"
    "\<forall>j \<le> length [99 :: nat]. dp r ! 0 ! j = j"
    using boundary_cells [of "[97, 98]" "[99]"] by blast
  have "dp r ! 2 ! 0 = 2" using r(2) by simp
  moreover have "dp r ! 0 ! 1 = 1" using r(3) by simp
  ultimately show ?thesis using r(1) by blast
qed

text \<open>
  Claim C6. The builder returns a result for every pair of strings, empty ones included:
  its loops end and no access leaves the arrays. For two empty strings the table is
  \<open>[[0]]\<close>, the distance is 0 and there is exactly one Step.
\<close>

theorem builder_total:
  "(\<exists>r. computeEditDistanceSteps a b = Inr r) \<and>
   (\<exists>r. computeEditDistanceSteps [] [] = Inr r \<and> dp r = [[0]] \<and>
        dp r ! length ([] :: js_string) ! length ([] :: js_string) = 0 \<and>
        length (steps r) = 1)"
proof -
  have "\<exists>r. computeEditDistanceSteps a b = Inr r"
    using builder_result [of a b] by blast
  moreover have "computeEditDistanceSteps [] [] =
      Inr \<lparr>dp = [[0]], steps = [col_step [] 0], parent = [[None]]\<rparr>"
    by code_simp
  ultimately show ?thesis by simp
qed

text \<open>The instances "abc" with the empty string, and the empty string with "ab".\<close>

theorem builder_total_witness:
  "(\<exists>r. computeEditDistanceSteps [97, 98, 99] [] = Inr r) \<and>
   (\<exists>r. computeEditDistanceSteps [] [97, 98] = Inr r)"
  using builder_total [of "[97, 98, 99]" "[]"] builder_total [of "[]" "[97, 98]"] by blast

section \<open>Claims about the Step list\<close>

lemma concat_rows_length:
  "length (concat (map (\<lambda>i. map (f i) js) is)) = length is * length js"
  by (induction "is") simp_all

lemma concat_rows_nth:
  "k < length is \<Longrightarrow> l < length js \<Longrightarrow>
   concat (map (\<lambda>i. map (f i) js) is) ! (k * length js + l) = f (is ! k) (js ! l)"
proof (induction "is" arbitrary: k)
  case Nil
  then show ?case by simp
next
  case (Cons x xs)
  show ?case
  proof (cases k)
    case 0
    then show ?thesis using Cons.prems by (simp add: nth_append)
  next
    case (Suc k')
    then have "concat (map (\<lambda>i. map (f i) js) (x # xs)) ! (k * length js + l) =
        concat (map (\<lambda>i. map (f i) js) xs) ! (k' * length js + l)"
      by (simp add: nth_append)
    then show ?thesis using Cons.IH [of k'] Cons.prems Suc by simp
  qed
qed

lemma length_interior_steps: "length (interior_steps a b m n) = m * n"
  by (simp add: interior_steps_def concat_rows_length del: upt_Suc)

lemma nth_interior_steps:
  assumes "1 \<le> i" "i \<le> m" "1 \<le> j" "j \<le> n"
  shows "interior_steps a b m n ! ((i - 1) * n + (j - 1)) = cell_step a b i j"
proof -
  have "concat (map (\<lambda>i. map (cell_step a b i) [1..<n + 1]) [1..<m + 1]) !
          ((i - 1) * length [1..<n + 1] + (j - 1)) =
        cell_step a b ([1..<m + 1] ! (i - 1)) ([1..<n + 1] ! (j - 1))"
    using assms by (intro concat_rows_nth) simp_all
  then show ?thesis using assms by (simp add: interior_steps_def del: upt_Suc)
qed

lemma length_all_steps:
  "length (all_steps a b) = (length a + 1) + length b + length a * length b"
  by (simp add: all_steps_def length_interior_steps del: upt_Suc)

lemma nth_all_steps_interior:
  assumes "1 \<le> i" "i \<le> length a" "1 \<le> j" "j \<le> length b"
  shows "all_steps a b ! (length a + 1 + length b + (i - 1) * length b + (j - 1)) =
         cell_step a b i j"
proof -
  let ?pre = "map (col_step a) [0..<length a + 1] @ map (row_step b) [1..<length b + 1]"
  have len: "length ?pre = length a + 1 + length b" by (simp del: upt_Suc)
  have "all_steps a b = ?pre @ interior_steps a b (length a) (length b)"
    by (simp add: all_steps_def)
  then have "all_steps a b ! (length ?pre + ((i - 1) * length b + (j - 1))) =
      interior_steps a b (length a) (length b) ! ((i - 1) * length b + (j - 1))"
    by (simp only: nth_append_length_plus)
  then show ?thesis
    using nth_interior_steps [OF assms, of a b] by (simp only: len add.assoc)
qed

lemma all_steps_cases:
  assumes "st \<in> set (all_steps a b)"
  shows "(\<exists>i \<le> length a. st = col_step a i) \<or>
         (\<exists>j. 1 \<le> j \<and> j \<le> length b \<and> st = row_step b j) \<or>
         (\<exists>i j. 1 \<le> i \<and> i \<le> length a \<and> 1 \<le> j \<and> j \<le> length b \<and> st = cell_step a b i j)"
proof -
  from assms consider
    (col) "st \<in> set (map (col_step a) [0..<length a + 1])" |
    (row) "st \<in> set (map (row_step b) [1..<length b + 1])" |
    (cell) "st \<in> set (interior_steps a b (length a) (length b))"
    by (auto simp: all_steps_def)
  then show ?thesis
  proof cases
    case col
    then have "\<exists>i \<le> length a. st = col_step a i"
      by (auto simp: less_Suc_eq_le simp del: upt_Suc)
    then show ?thesis by blast
  next
    case row
    then have "\<exists>j. 1 \<le> j \<and> j \<le> length b \<and> st = row_step b j"
      by (auto simp: less_Suc_eq_le simp del: upt_Suc)
    then show ?thesis by blast
  next
    case cell
    then have "\<exists>i j. 1 \<le> i \<and> i \<le> length a \<and> 1 \<le> j \<and> j \<le> length b \<and>
        st = cell_step a b i j"
      by (fastforce simp: interior_steps_def less_Suc_eq_le simp del: upt_Suc)
    then show ?thesis by blast
  qed
qed

lemma all_steps_coords:
  "map (\<lambda>st. (ce_i st, ce_j st)) (all_steps a b) =
     [(0, 0)] @ map (\<lambda>i. (i, 0)) [1..<length a + 1] @ map (\<lambda>j. (0, j)) [1..<length b + 1] @
     concat (map (\<lambda>i. map (\<lambda>j. (i, j)) [1..<length b + 1]) [1..<length a + 1])"
proof -
  have c: "map (\<lambda>st. (ce_i st, ce_j st)) (map (col_step a) is) = map (\<lambda>i. (i, 0)) is" for "is"
    by (simp add: col_step_def)
  have r: "map (\<lambda>st. (ce_i st, ce_j st)) (map (row_step b) js) = map (\<lambda>j. (0, j)) js" for js
    by (simp add: row_step_def)
  have i: "map (\<lambda>st. (ce_i st, ce_j st)) (map (cell_step a b i) js) = map (\<lambda>j. (i, j)) js"
    for i js
    by (simp add: cell_step_def)
  have "map (\<lambda>st. (ce_i st, ce_j st)) (interior_steps a b (length a) (length b)) =
      concat (map (\<lambda>i. map (\<lambda>j. (i, j)) [1..<length b + 1]) [1..<length a + 1])"
    by (simp add: interior_steps_def map_concat comp_def cell_step_def del: upt_Suc)
  moreover have "[0..<length a + 1] = 0 # [1..<length a + 1]"
    by (simp add: upt_conv_Cons del: upt_Suc)
  ultimately show ?thesis
    unfolding all_steps_def map_append c r by simp
qed

lemma last_coords:
  "last ([(0, 0)] @ map (\<lambda>i. (i, 0)) [1..<m + 1] @ map (\<lambda>j. (0, j)) [1..<n + 1] @
     concat (map (\<lambda>i. map (\<lambda>j. (i, j)) [1..<n + 1]) [1..<m + 1])) = (m, n)"
  by (cases m; cases n; simp)

text \<open>
  Claim C4. For every pair of strings the returned Step list has exactly
  \<open>(a.length + 1) + b.length + a.length * b.length\<close> entries; their coordinates are
  \<open>(0,0)\<close>, then \<open>(i,0)\<close> for \<open>i\<close> from 1 to \<open>a.length\<close>, then \<open>(0,j)\<close> for \<open>j\<close> from 1
  to \<open>b.length\<close>, then the interior cells row by row; the last Step is the one of the
  cell \<open>(a.length, b.length)\<close>.
\<close>

theorem step_order:
  "\<exists>r. computeEditDistanceSteps a b = Inr r \<and>
       length (steps r) = (length a + 1) + length b + length a * length b \<and>
       map (\<lambda>st. (ce_i st, ce_j st)) (steps r) =
         [(0, 0)] @ map (\<lambda>i. (i, 0)) [1..<length a + 1] @
         map (\<lambda>j. (0, j)) [1..<length b + 1] @
         concat (map (\<lambda>i. map (\<lambda>j. (i, j)) [1..<length b + 1]) [1..<length a + 1]) \<and>
       (ce_i (last (steps r)), ce_j (last (steps r))) = (length a, length b)"
proof -
  obtain r where r: "computeEditDistanceSteps a b = Inr r" "steps r = all_steps a b"
    using builder_result [of a b] by blast
  have ne: "all_steps a b \<noteq> []"
    using length_all_steps [of a b] by auto
  have "(ce_i (last (all_steps a b)), ce_j (last (all_steps a b))) =
      last (map (\<lambda>st. (ce_i st, ce_j st)) (all_steps a b))"
    using ne by (simp add: last_map)
  also have "\<dots> = (length a, length b)"
    unfolding all_steps_coords by (rule last_coords)
  finally show ?thesis
    using r length_all_steps [of a b] all_steps_coords [of a b] by simp
qed

text \<open>The instance "ab" and "cd": nine Steps, the last one for the cell \<open>(2, 2)\<close>.\<close>

theorem step_order_witness:
  "\<exists>r. computeEditDistanceSteps [97, 98] [99, 100] = Inr r \<and>
       length (steps r) = 9 \<and>
       map (\<lambda>st. (ce_i st, ce_j st)) (steps r) =
         [(0, 0), (1, 0), (2, 0), (0, 1), (0, 2), (1, 1), (1, 2), (2, 1), (2, 2)] \<and>
       (ce_i (last (steps r)), ce_j (last (steps r))) = (2, 2)"
proof -
  have "[1..<length [97, 98 :: nat] + 1] = [1, 2]" "[1..<length [99, 100 :: nat] + 1] = [1, 2]"
    by (simp_all add: upt_rec)
  then show ?thesis
    using step_order [of "[97, 98]" "[99, 100]"] by (simp add: eval_nat_numeral)
qed

lemma step_facts:
  assumes "st \<in> set (all_steps a b)"
  shows "ce_i st \<le> length a \<and> ce_j st \<le> length b \<and>
         cost st = dist_at a b (ce_i st) (ce_j st) \<and> c_value (chosen st) = cost st"
proof -
  consider
    (col) i where "i \<le> length a" "st = col_step a i" |
    (row) j where "1 \<le> j" "j \<le> length b" "st = row_step b j" |
    (cell) i j where "1 \<le> i" "i \<le> length a" "1 \<le> j" "j \<le> length b" "st = cell_step a b i j"
    using all_steps_cases [OF assms] by blast
  then show ?thesis
  proof cases
    case col
    then show ?thesis by (simp add: col_step_def dist_at_col)
  next
    case row
    then show ?thesis by (simp add: row_step_def)
  next
    case cell
    obtain i0 j0 where ij: "i = Suc i0" "j = Suc j0"
      using cell(1,3) by (metis One_nat_def Suc_le_D)
    have "c_value (cell_chosen a b i j) = dist_at a b i j"
      unfolding ij by (rule cell_chosen_value)
    then show ?thesis using cell by (simp add: cell_step_def)
  qed
qed

lemma builder_resultD:
  assumes "computeEditDistanceSteps a b = Inr r"
  shows "rect (length a) (length b) (dp r)" "rect (length a) (length b) (parent r)"
    "steps r = all_steps a b"
    "\<forall>i \<le> length a. \<forall>j \<le> length b.
       dp r ! i ! j = dist_at a b i j \<and> parent r ! i ! j = link_at a b i j"
  using builder_result [of a b] assms by auto

text \<open>
  Claim C10. For every pair of strings and every Step of the returned list, the Step's
  \<open>cost\<close> equals the value of its \<open>chosen\<close> candidate and equals the entry of the
  returned table at the Step's coordinates, which lie inside the table: no later
  iteration overwrites a cell a Step has recorded.
\<close>

theorem step_cost_is_final_entry:
  "\<exists>r. computeEditDistanceSteps a b = Inr r \<and>
       (\<forall>st \<in> set (steps r).
          ce_i st \<le> length a \<and> ce_j st \<le> length b \<and>
          cost st = c_value (chosen st) \<and> cost st = dp r ! ce_i st ! ce_j st)"
proof -
  obtain r where r: "computeEditDistanceSteps a b = Inr r" "steps r = all_steps a b"
    "\<forall>i \<le> length a. \<forall>j \<le> length b.
       dp r ! i ! j = dist_at a b i j \<and> parent r ! i ! j = link_at a b i j"
    using builder_result [of a b] by blast
  have "ce_i st \<le> length a \<and> ce_j st \<le> length b \<and>
          cost st = c_value (chosen st) \<and> cost st = dp r ! ce_i st ! ce_j st"
    if "st \<in> set (steps r)" for st
  proof -
    have f: "ce_i st \<le> length a" "ce_j st \<le> length b"
      "cost st = dist_at a b (ce_i st) (ce_j st)" "c_value (chosen st) = cost st"
      using step_facts [of st a b] that r(2) by simp_all
    then have "dp r ! ce_i st ! ce_j st = dist_at a b (ce_i st) (ce_j st)"
      using r(3) by blast
    then show ?thesis using f by simp
  qed
  then show ?thesis using r(1) by blast
qed


text \<open>The instance "aa" and "a", at the last Step, the one of the cell \<open>(2, 1)\<close>.\<close>

theorem step_cost_is_final_entry_witness:
  "\<exists>r. computeEditDistanceSteps [97, 97] [97] = Inr r \<and>
       cost (last (steps r)) = 1 \<and> c_value (chosen (last (steps r))) = 1 \<and> dp r ! 2 ! 1 = 1"
proof -
  obtain r where r: "computeEditDistanceSteps [97, 97] [97] = Inr r"
    "\<forall>st \<in> set (steps r).
          ce_i st \<le> length [97, 97 :: nat] \<and> ce_j st \<le> length [97 :: nat] \<and>
          cost st = c_value (chosen st) \<and> cost st = dp r ! ce_i st ! ce_j st"
    using step_cost_is_final_entry [of "[97, 97]" "[97]"] by blast
  have s: "steps r = all_steps [97, 97] [97]"
    using r(1) by (rule builder_resultD(3))
  have e1: "steps r \<noteq> []"
    unfolding s by code_simp
  have e2: "ce_i (last (steps r)) = 2"
    unfolding s by code_simp
  have e3: "ce_j (last (steps r)) = 1"
    unfolding s by code_simp
  have e4: "cost (last (steps r)) = 1"
    unfolding s by code_simp
  have "last (steps r) \<in> set (steps r)" using e1 by simp
  then have "cost (last (steps r)) = c_value (chosen (last (steps r)))"
    "cost (last (steps r)) = dp r ! ce_i (last (steps r)) ! ce_j (last (steps r))"
    using r(2) by blast+
  then show ?thesis using r(1) e2 e3 e4 by simp
qed

text \<open>
  Claim C3. For every pair of strings and every interior cell \<open>(i, j)\<close> with
  \<open>1 \<le> i \<le> a.length\<close> and \<open>1 \<le> j \<le> b.length\<close>, the Step pushed for that cell (at
  position \<open>(a.length + 1) + b.length + (i - 1) * b.length + (j - 1)\<close> of the list)
  records the three candidates delete, insert and diagonal in this order; the value of
  its \<open>chosen\<close> candidate is the least of the three candidate values and so is
  \<open>dp[i][j]\<close>; and \<open>chosen\<close> is the diagonal candidate when its value is the least,
  else the delete candidate when its value is the least, else the insert candidate.
\<close>

theorem interior_step_choice:
  "\<exists>r. computeEditDistanceSteps a b = Inr r \<and>
     (\<forall>i j. 1 \<le> i \<and> i \<le> length a \<and> 1 \<le> j \<and> j \<le> length b \<longrightarrow>
        (let st = steps r ! (length a + 1 + length b + (i - 1) * length b + (j - 1));
             delC = \<lparr>c_op = Delete, c_from = Some (i - 1, j),
                     c_value = dp r ! (i - 1) ! j + 1\<rparr>;
             insC = \<lparr>c_op = Insert, c_from = Some (i, j - 1),
                     c_value = dp r ! i ! (j - 1) + 1\<rparr>;
             diagC = \<lparr>c_op = (if a ! (i - 1) = b ! (j - 1) then Match else Replace),
                      c_from = Some (i - 1, j - 1),
                      c_value = dp r ! (i - 1) ! (j - 1) +
                                (if a ! (i - 1) = b ! (j - 1) then 0 else 1)\<rparr>;
             least = Min (c_value ` set (candidates st))
         in ce_i st = i \<and> ce_j st = j \<and> candidates st = [delC, insC, diagC] \<and>
            c_value (chosen st) = least \<and> dp r ! i ! j = least \<and>
            chosen st = (if c_value diagC = least then diagC
                         else if c_value delC = least then delC else insC)))"
proof -
  obtain r where r: "computeEditDistanceSteps a b = Inr r" "steps r = all_steps a b"
    "\<forall>i \<le> length a. \<forall>j \<le> length b.
       dp r ! i ! j = dist_at a b i j \<and> parent r ! i ! j = link_at a b i j"
    using builder_result [of a b] by blast
  have "let st = steps r ! (length a + 1 + length b + (i - 1) * length b + (j - 1));
             delC = \<lparr>c_op = Delete, c_from = Some (i - 1, j),
                     c_value = dp r ! (i - 1) ! j + 1\<rparr>;
             insC = \<lparr>c_op = Insert, c_from = Some (i, j - 1),
                     c_value = dp r ! i ! (j - 1) + 1\<rparr>;
             diagC = \<lparr>c_op = (if a ! (i - 1) = b ! (j - 1) then Match else Replace),
                      c_from = Some (i - 1, j - 1),
                      c_value = dp r ! (i - 1) ! (j - 1) +
                                (if a ! (i - 1) = b ! (j - 1) then 0 else 1)\<rparr>;
             least = Min (c_value ` set (candidates st))
         in ce_i st = i \<and> ce_j st = j \<and> candidates st = [delC, insC, diagC] \<and>
            c_value (chosen st) = least \<and> dp r ! i ! j = least \<and>
            chosen st = (if c_value diagC = least then diagC
                         else if c_value delC = least then delC else insC)"
    if b: "1 \<le> i" "i \<le> length a" "1 \<le> j" "j \<le> length b" for i j
  proof -
    obtain i0 j0 where ij: "i = Suc i0" "j = Suc j0"
      using b(1,3) by (metis One_nat_def Suc_le_D)
    have st: "steps r ! (length a + 1 + length b + (i - 1) * length b + (j - 1)) =
        cell_step a b i j"
      unfolding r(2) using b by (rule nth_all_steps_interior)
    have d: "dp r ! (i - 1) ! j = dist_at a b (i - 1) j"
      "dp r ! i ! (j - 1) = dist_at a b i (j - 1)"
      "dp r ! (i - 1) ! (j - 1) = dist_at a b (i - 1) (j - 1)"
      "dp r ! i ! j = dist_at a b i j"
      using r(3) b by simp_all
    have ch: "(char_at a (i - 1) = char_at b (j - 1)) = (a ! (i - 1) = b ! (j - 1))"
      using b unfolding ij by (simp add: char_at_def)
    let ?del = "dist_at a b (i - 1) j + 1"
    let ?ins = "dist_at a b i (j - 1) + 1"
    let ?rep = "dist_at a b (i - 1) (j - 1) + (if a ! (i - 1) = b ! (j - 1) then 0 else 1)"
    let ?delC = "\<lparr>c_op = Delete, c_from = Some (i - 1, j), c_value = ?del\<rparr>"
    let ?insC = "\<lparr>c_op = Insert, c_from = Some (i, j - 1), c_value = ?ins\<rparr>"
    let ?diagC = "\<lparr>c_op = (if a ! (i - 1) = b ! (j - 1) then Match else Replace),
                    c_from = Some (i - 1, j - 1), c_value = ?rep\<rparr>"
    have cands: "cell_cands a b i j = [?delC, ?insC, ?diagC]"
      unfolding cell_cands_def ch by simp
    have least: "Min (c_value ` set (cell_cands a b i j)) = min ?del (min ?ins ?rep)"
      unfolding cands by simp
    have chosen: "cell_chosen a b i j =
        (if ?rep = min ?del (min ?ins ?rep) then ?diagC
         else if ?del = min ?del (min ?ins ?rep) then ?delC else ?insC)"
      unfolding cell_chosen_def cands Let_def ch
      by (simp only: nth_Cons_0 nth_Cons_Suc numeral_2_eq_2 One_nat_def candidate.select_convs)
    have v: "c_value (cell_chosen a b i j) = dist_at a b i j"
      unfolding ij by (rule cell_chosen_value)
    have ch0: "(char_at a i0 = char_at b j0) = (a ! i0 = b ! j0)"
      using b unfolding ij by (simp add: char_at_def)
    have dij: "dist_at a b i j = min ?del (min ?ins ?rep)"
      unfolding ij dist_at.simps ch0 by (simp only: diff_Suc_1)
    have s1: "ce_i (cell_step a b i j) = i" "ce_j (cell_step a b i j) = j"
      "candidates (cell_step a b i j) = cell_cands a b i j"
      "chosen (cell_step a b i j) = cell_chosen a b i j"
      by (simp_all add: cell_step_def)
    show ?thesis
      unfolding Let_def st d s1 least v candidate.select_convs
      using cands dij chosen by (simp only: simp_thms)
  qed
  then show ?thesis using r(1) by blast
qed


lemma example_aa_a_dist:
  "dist_at [97, 97] [97] 1 1 = 0" "dist_at [97, 97] [97] 2 0 = 2" "dist_at [97, 97] [97] 1 0 = 1"
  by (simp_all add: eval_nat_numeral char_at_def)

text \<open>
  The instance "aa" and "a" at the cell \<open>(2, 1)\<close>, where the diagonal and the delete
  candidate tie at the value 1 and the diagonal one is chosen.
\<close>

theorem interior_step_choice_witness:
  "\<exists>r. computeEditDistanceSteps [97, 97] [97] = Inr r \<and>
       candidates (steps r ! 5) =
         [\<lparr>c_op = Delete, c_from = Some (1, 1), c_value = 1\<rparr>,
          \<lparr>c_op = Insert, c_from = Some (2, 0), c_value = 3\<rparr>,
          \<lparr>c_op = Match, c_from = Some (1, 0), c_value = 1\<rparr>] \<and>
       chosen (steps r ! 5) = \<lparr>c_op = Match, c_from = Some (1, 0), c_value = 1\<rparr> \<and>
       dp r ! 2 ! 1 = 1"
proof -
  let ?a = "[97, 97] :: js_string" and ?b = "[97] :: js_string"
  obtain r where r: "computeEditDistanceSteps ?a ?b = Inr r"
    "\<forall>i j. 1 \<le> i \<and> i \<le> length ?a \<and> 1 \<le> j \<and> j \<le> length ?b \<longrightarrow>
        (let st = steps r ! (length ?a + 1 + length ?b + (i - 1) * length ?b + (j - 1));
             delC = \<lparr>c_op = Delete, c_from = Some (i - 1, j),
                     c_value = dp r ! (i - 1) ! j + 1\<rparr>;
             insC = \<lparr>c_op = Insert, c_from = Some (i, j - 1),
                     c_value = dp r ! i ! (j - 1) + 1\<rparr>;
             diagC = \<lparr>c_op = (if ?a ! (i - 1) = ?b ! (j - 1) then Match else Replace),
                      c_from = Some (i - 1, j - 1),
                      c_value = dp r ! (i - 1) ! (j - 1) +
                                (if ?a ! (i - 1) = ?b ! (j - 1) then 0 else 1)\<rparr>;
             least = Min (c_value ` set (candidates st))
         in ce_i st = i \<and> ce_j st = j \<and> candidates st = [delC, insC, diagC] \<and>
            c_value (chosen st) = least \<and> dp r ! i ! j = least \<and>
            chosen st = (if c_value diagC = least then diagC
                         else if c_value delC = least then delC else insC))"
    using interior_step_choice [of ?a ?b] by blast
  note cells = builder_resultD(4) [OF r(1), rule_format]
  have d: "dp r ! 1 ! 1 = 0" "dp r ! 2 ! 0 = 2" "dp r ! 1 ! 0 = 1"
    using cells [of 1 1] cells [of 2 0] cells [of 1 0] by (simp_all add: example_aa_a_dist char_at_def)
  have "1 \<le> (2::nat) \<and> 2 \<le> length ?a \<and> 1 \<le> (1::nat) \<and> 1 \<le> length ?b"
    by simp
  from r(2) [rule_format, OF this] show ?thesis
    using r(1) d by (simp add: Let_def eval_nat_numeral)
qed

section \<open>Claims about fixed inputs\<close>

lemma example_abc_empty:
  "map (c_op \<circ> chosen) (all_steps [97, 98, 99] []) = [Init, Delete, Delete, Delete]"
  "dist_at [97, 98, 99] [] 3 0 = 3"
  by (simp_all add: all_steps_def interior_steps_def col_step_def upt_rec dist_at_col)

lemma example_empty_xyz:
  "map (c_op \<circ> chosen) (all_steps [] [120, 121, 122]) = [Init, Insert, Insert, Insert]"
  "dist_at [] [120, 121, 122] 0 3 = 3"
  by (simp_all add: all_steps_def interior_steps_def col_step_def row_step_def upt_rec)

text \<open>
  Claim C9, as stated, fails: for "abc" and the empty string the first Step, the one of
  the origin \<open>(0, 0)\<close>, has the chosen operation init and not delete.
\<close>

theorem first_step_is_init:
  "map_sum id (map (c_op \<circ> chosen) \<circ> steps) (computeEditDistanceSteps [97, 98, 99] []) =
     Inr [Init, Delete, Delete, Delete]"
proof -
  obtain r where r: "computeEditDistanceSteps [97, 98, 99] [] = Inr r"
    using builder_result [of "[97, 98, 99]" "[]"] by blast
  have "steps r = all_steps [97, 98, 99] []"
    using r by (rule builder_resultD(3))
  then show ?thesis
    using r by (simp add: example_abc_empty(1))
qed

text \<open>
  Claim C9, amended. For "abc" and the empty string the distance is 3 and the chosen
  operations of the Steps are init for the first Step and delete for every other one;
  for the empty string and "xyz" the distance is 3 and they are init for the first Step
  and insert for every other one.
\<close>

theorem one_sided_inputs:
  "(\<exists>r. computeEditDistanceSteps [97, 98, 99] [] = Inr r \<and> dp r ! 3 ! 0 = 3 \<and>
        map (c_op \<circ> chosen) (steps r) = [Init, Delete, Delete, Delete]) \<and>
   (\<exists>r. computeEditDistanceSteps [] [120, 121, 122] = Inr r \<and> dp r ! 0 ! 3 = 3 \<and>
        map (c_op \<circ> chosen) (steps r) = [Init, Insert, Insert, Insert])"
proof (rule conjI)
  obtain r where r: "computeEditDistanceSteps [97, 98, 99] [] = Inr r"
    using builder_result [of "[97, 98, 99]" "[]"] by blast
  have "dp r ! 3 ! 0 = dist_at [97, 98, 99] [] 3 0"
    using builder_resultD(4) [OF r, rule_format, of 3 0] by simp
  then have "dp r ! 3 ! 0 = 3"
    by (simp only: example_abc_empty(2))
  moreover have "map (c_op \<circ> chosen) (steps r) = [Init, Delete, Delete, Delete]"
    unfolding builder_resultD(3) [OF r] by (rule example_abc_empty(1))
  ultimately show "\<exists>r. computeEditDistanceSteps [97, 98, 99] [] = Inr r \<and> dp r ! 3 ! 0 = 3 \<and>
        map (c_op \<circ> chosen) (steps r) = [Init, Delete, Delete, Delete]"
    using r by (intro exI [of _ r] conjI)
next
  obtain r where r: "computeEditDistanceSteps [] [120, 121, 122] = Inr r"
    using builder_result [of "[]" "[120, 121, 122]"] by blast
  have "dp r ! 0 ! 3 = dist_at [] [120, 121, 122] 0 3"
    using builder_resultD(4) [OF r, rule_format, of 0 3] by simp
  then have "dp r ! 0 ! 3 = 3"
    by (simp only: example_empty_xyz(2))
  moreover have "map (c_op \<circ> chosen) (steps r) = [Init, Insert, Insert, Insert]"
    unfolding builder_resultD(3) [OF r] by (rule example_empty_xyz(1))
  ultimately show "\<exists>r. computeEditDistanceSteps [] [120, 121, 122] = Inr r \<and>
        dp r ! 0 ! 3 = 3 \<and> map (c_op \<circ> chosen) (steps r) = [Init, Insert, Insert, Insert]"
    using r by (intro exI [of _ r] conjI)
qed

section \<open>Claims about the backtrace\<close>

lemma lookup_parent:
  assumes "computeEditDistanceSteps a b = Inr r" "i \<le> length a" "j \<le> length b"
  shows "lookup_link (parent r) (int i) (int j) = link_at a b i j"
proof -
  have "rect (length a) (length b) (parent r)"
    using assms(1) by (rule builder_resultD(2))
  then have "i < length (parent r)" "j < length (parent r ! i)"
    using assms(2,3) by (simp_all add: rect_def)
  then have "lookup_link (parent r) (int i) (int j) = parent r ! i ! j"
    by (simp add: lookup_link_def)
  then show ?thesis
    using builder_resultD(4) [OF assms(1)] assms(2,3) by simp
qed

lemma cell_link_back:
  "\<exists>p. cell_link a b (Suc i) (Suc j) = Some p \<and> step_back p (Suc i) (Suc j)"
  by (simp add: cell_link_def cell_chosen_def cell_cands_def Let_def step_back_def)

lemma link_at_back:
  "case link_at a b i j of None \<Rightarrow> i = 0 \<and> j = 0 | Some p \<Rightarrow> step_back p i j"
proof (cases j)
  case 0
  then show ?thesis by (simp add: link_at_def col_link_def step_back_def)
next
  case j: (Suc j0)
  show ?thesis
  proof (cases i)
    case 0
    then show ?thesis using j by (simp add: link_at_def row_link_def step_back_def)
  next
    case (Suc i0)
    then show ?thesis
      using j cell_link_back [of a b i0 j0] by (auto simp: link_at_def)
  qed
qed

lemma builder_links_back:
  assumes "computeEditDistanceSteps a b = Inr r"
  shows "links_back (length a) (length b) (parent r)"
  unfolding links_back_def using lookup_parent [OF assms] link_at_back by simp

lemma within_mono:
  "backtrace_within k t i j path = Some q \<Longrightarrow> backtrace_within (k + d) t i j path = Some q"
proof (induction k arbitrary: i j path)
  case 0
  then show ?case by simp
next
  case (Suc k)
  then show ?case by (cases "lookup_link t i j") simp_all
qed

lemma within_imp_loop:
  "backtrace_within k t i j path = Some q \<Longrightarrow> backtrace_loop t i j path = Some q"
proof (induction k arbitrary: i j path)
  case 0
  then show ?case by simp
next
  case (Suc k)
  show ?case
  proof (cases "lookup_link t i j")
    case None
    then show ?thesis using Suc.prems by (subst backtrace_loop.simps) simp
  next
    case (Some p)
    then have "backtrace_within k t (p_i p) (p_j p) (set_add (p_i p, p_j p) path) = Some q"
      using Suc.prems by simp
    then have "backtrace_loop t (p_i p) (p_j p) (set_add (p_i p, p_j p) path) = Some q"
      by (rule Suc.IH)
    then show ?thesis using Some by (subst backtrace_loop.simps) simp
  qed
qed

text \<open>Whatever the table and the start, a run that returns gives a set, never an error.\<close>

lemma loop_never_raises:
  assumes "backtrace_loop t i j path = Some x"
  shows "\<exists>q. x = Inr q"
proof (rule backtrace_loop.raw_induct [where P = "\<lambda>t i j path x. \<exists>q. x = Inr q", OF _ assms])
  fix f :: "parent_table \<Rightarrow> int \<Rightarrow> int \<Rightarrow> path \<Rightarrow> (fault + path) option"
    and t i j path x
  assume IH: "\<And>t i j path y. f t i j path = Some y \<Longrightarrow> \<exists>q. y = Inr q"
    and eq: "(case lookup_link t i j of
                None \<Rightarrow> Some (Inr path)
              | Some p \<Rightarrow> f t (p_i p) (p_j p) (set_add (p_i p, p_j p) path)) = Some x"
  show "\<exists>q. x = Inr q"
    using IH eq by (cases "lookup_link t i j") auto
qed

lemma start_outside:
  assumes "\<not> (0 \<le> i \<and> i < int (length t) \<and> 0 \<le> j \<and> j < int (length (t ! nat i)))"
  shows "buildBacktrace t i j = Some (Inr [(i, j)])"
proof -
  have "lookup_link t i j = None"
    using assms by (auto simp: lookup_link_def)
  then show ?thesis
    unfolding buildBacktrace_def by (subst backtrace_loop.simps) (simp add: set_add_def)
qed

lemma walk:
  assumes "links_back m n t"
  shows "i \<le> m \<Longrightarrow> j \<le> n \<Longrightarrow> path \<noteq> [] \<Longrightarrow> last path = (int i, int j) \<Longrightarrow>
         (\<forall>q \<in> set path. int (i + j) \<le> fst q + snd q) \<Longrightarrow>
         successively (follows t) path \<Longrightarrow>
         \<exists>ext. backtrace_within (i + j + 1) t (int i) (int j) path = Some (Inr (path @ ext)) \<and>
               last (path @ ext) = (0, 0) \<and> successively (follows t) (path @ ext)"
proof (induction "i + j" arbitrary: i j path rule: less_induct)
  case less
  have lb: "case lookup_link t (int i) (int j) of
              None \<Rightarrow> i = 0 \<and> j = 0 | Some p \<Rightarrow> step_back p i j"
    using assms less.prems(1,2) by (simp add: links_back_def)
  show ?case
  proof (cases "lookup_link t (int i) (int j)")
    case None
    then have "i = 0 \<and> j = 0" using lb by simp
    then show ?thesis using None less.prems by (intro exI [of _ "[]"]) simp
  next
    case (Some p)
    then have sb: "step_back p i j" using lb by simp
    define i' j' where "i' = nat (p_i p)" and "j' = nat (p_j p)"
    have c: "p_i p = int i'" "p_j p = int j'"
      using sb by (simp_all add: step_back_def i'_def j'_def)
    let ?c = "(int i', int j')"
    have lt: "i' + j' < i + j" "i' \<le> m" "j' \<le> n"
      using sb less.prems(1,2) unfolding step_back_def c by auto
    have "?c \<notin> set path"
      using less.prems(5) lt(1) by fastforce
    then have add: "set_add ?c path = path @ [?c]"
      by (simp add: set_add_def)
    have "(int i, int j) = (fst ?c + 1, snd ?c) \<or> (int i, int j) = (fst ?c, snd ?c + 1) \<or>
        (int i, int j) = (fst ?c + 1, snd ?c + 1)"
      using sb unfolding step_back_def c by auto
    then have "follows t (int i, int j) ?c"
      using Some c by (simp add: follows_def)
    then have succ: "successively (follows t) (path @ [?c])"
      using less.prems(3,4,6) by (simp add: successively_append_iff)
    have sums: "\<forall>q \<in> set (path @ [?c]). int (i' + j') \<le> fst q + snd q"
      using less.prems(5) lt(1) by fastforce
    have "\<exists>ext. backtrace_within (i' + j' + 1) t (int i') (int j') (path @ [?c]) =
              Some (Inr ((path @ [?c]) @ ext)) \<and>
            last ((path @ [?c]) @ ext) = (0, 0) \<and>
            successively (follows t) ((path @ [?c]) @ ext)"
      using lt sums succ by (intro less.hyps) simp_all
    then obtain ext where ext:
      "backtrace_within (i' + j' + 1) t (int i') (int j') (path @ [?c]) =
         Some (Inr ((path @ [?c]) @ ext))"
      "last ((path @ [?c]) @ ext) = (0, 0)"
      "successively (follows t) ((path @ [?c]) @ ext)"
      by blast
    have e: "i' + j' + 1 + (i + j - (i' + j' + 1)) = i + j"
      using lt(1) by simp
    have "backtrace_within (i + j) t (int i') (int j') (path @ [?c]) =
        Some (Inr ((path @ [?c]) @ ext))"
      using within_mono [OF ext(1), of "i + j - (i' + j' + 1)"] unfolding e .
    then have "backtrace_within (i + j + 1) t (int i) (int j) path =
        Some (Inr (path @ (?c # ext)))"
      using Some add c by simp
    then show ?thesis
      using ext(2,3) by (intro exI [of _ "?c # ext"]) simp
  qed
qed

lemma backtrace_from:
  assumes "links_back m n t" "i \<le> m" "j \<le> n"
  shows "\<exists>path. backtrace_within (i + j + 1) t (int i) (int j) (set_add (int i, int j) []) =
             Some (Inr path) \<and>
           buildBacktrace t (int i) (int j) = Some (Inr path) \<and> path \<noteq> [] \<and>
           hd path = (int i, int j) \<and> last path = (0, 0) \<and> successively (follows t) path"
proof -
  let ?s = "(int i, int j)"
  have s: "set_add ?s [] = [?s]"
    by (simp add: set_add_def)
  obtain ext where ext:
    "backtrace_within (i + j + 1) t (int i) (int j) [?s] = Some (Inr ([?s] @ ext))"
    "last ([?s] @ ext) = (0, 0)" "successively (follows t) ([?s] @ ext)"
    using walk [OF assms, of "[?s]"] by auto
  have "buildBacktrace t (int i) (int j) = Some (Inr ([?s] @ ext))"
    unfolding buildBacktrace_def s using ext(1) by (rule within_imp_loop)
  then show ?thesis
    using ext unfolding s by (intro exI [of _ "[?s] @ ext"]) simp
qed

text \<open>
  Claim C7. For every pair of strings, on the parent table the builder returns and from
  every cell \<open>(endI, endJ)\<close> of the table, the loop of \<open>buildBacktrace\<close> leaves after at
  most \<open>endI + endJ + 1\<close> runs of its body, and \<open>buildBacktrace\<close> returns that result.
  Every link of the table leads from its cell \<open>(i, j)\<close> to \<open>(i - 1, j)\<close> when its operation
  is delete, to \<open>(i, j - 1)\<close> when it is insert and to \<open>(i - 1, j - 1)\<close> when it is match
  or replace, and never below 0, so following it lowers \<open>i + j\<close> by exactly 1 or by
  exactly 2.
\<close>

theorem backtrace_terminates:
  "\<exists>r. computeEditDistanceSteps a b = Inr r \<and>
       (\<forall>endI \<le> length a. \<forall>endJ \<le> length b.
          \<exists>path. backtrace_within (endI + endJ + 1) (parent r) (int endI) (int endJ)
                   (set_add (int endI, int endJ) []) = Some (Inr path) \<and>
                 buildBacktrace (parent r) (int endI) (int endJ) = Some (Inr path)) \<and>
       (\<forall>i \<le> length a. \<forall>j \<le> length b. \<forall>p.
          lookup_link (parent r) (int i) (int j) = Some p \<longrightarrow>
          0 \<le> p_i p \<and> 0 \<le> p_j p \<and>
          ((p_op p = Delete \<and> p_i p + 1 = int i \<and> p_j p = int j) \<or>
           (p_op p = Insert \<and> p_i p = int i \<and> p_j p + 1 = int j) \<or>
           ((p_op p = Match \<or> p_op p = Replace) \<and> p_i p + 1 = int i \<and> p_j p + 1 = int j)))"
proof -
  obtain r where r: "computeEditDistanceSteps a b = Inr r"
    using builder_result [of a b] by blast
  have lb: "links_back (length a) (length b) (parent r)"
    using r by (rule builder_links_back)
  have "\<exists>path. backtrace_within (endI + endJ + 1) (parent r) (int endI) (int endJ)
                   (set_add (int endI, int endJ) []) = Some (Inr path) \<and>
                 buildBacktrace (parent r) (int endI) (int endJ) = Some (Inr path)"
    if "endI \<le> length a" "endJ \<le> length b" for endI endJ
    using backtrace_from [OF lb that] by blast
  moreover have "0 \<le> p_i p \<and> 0 \<le> p_j p \<and>
          ((p_op p = Delete \<and> p_i p + 1 = int i \<and> p_j p = int j) \<or>
           (p_op p = Insert \<and> p_i p = int i \<and> p_j p + 1 = int j) \<or>
           ((p_op p = Match \<or> p_op p = Replace) \<and> p_i p + 1 = int i \<and> p_j p + 1 = int j))"
    if "i \<le> length a" "j \<le> length b" "lookup_link (parent r) (int i) (int j) = Some p"
    for i j p
  proof -
    have "case lookup_link (parent r) (int i) (int j) of
            None \<Rightarrow> i = 0 \<and> j = 0 | Some p \<Rightarrow> step_back p i j"
      using lb that(1,2) by (simp add: links_back_def)
    then show ?thesis using that(3) by (simp add: step_back_def)
  qed
  ultimately show ?thesis using r by blast
qed

lemma example_aa_a_links:
  "link_at [97, 97] [97] 2 1 = Some \<lparr>p_i = 1, p_j = 0, p_op = Match\<rparr>"
  "link_at [97, 97] [97] 1 0 = Some \<lparr>p_i = 0, p_j = 0, p_op = Delete\<rparr>"
  "link_at [97, 97] [97] 0 0 = None"
  by (simp_all add: link_at_def col_link_def cell_link_def cell_chosen_def cell_cands_def
      Let_def char_at_def eval_nat_numeral)

lemma example_aa_a_walk:
  assumes "computeEditDistanceSteps [97, 97] [97] = Inr r"
  shows "backtrace_within 4 (parent r) 2 1 [(2, 1)] = Some (Inr [(2, 1), (1, 0), (0, 0)])"
proof -
  have "lookup_link (parent r) (int 2) (int 1) = link_at [97, 97] [97] 2 1"
    "lookup_link (parent r) (int 1) (int 0) = link_at [97, 97] [97] 1 0"
    "lookup_link (parent r) (int 0) (int 0) = link_at [97, 97] [97] 0 0"
    using assms by (rule lookup_parent; simp)+
  then have l: "lookup_link (parent r) 2 1 = Some \<lparr>p_i = 1, p_j = 0, p_op = Match\<rparr>"
    "lookup_link (parent r) 1 0 = Some \<lparr>p_i = 0, p_j = 0, p_op = Delete\<rparr>"
    "lookup_link (parent r) 0 0 = None"
    by (simp_all only: example_aa_a_links of_nat_numeral of_nat_1 of_nat_0)
  have "backtrace_within (Suc (Suc (Suc (Suc 0)))) (parent r) 2 1 [(2, 1)] =
      Some (Inr [(2, 1), (1, 0), (0, 0)])"
    using l by (simp add: set_add_def)
  then show ?thesis by (simp add: eval_nat_numeral)
qed

text \<open>The instance "aa" and "a" from the final cell \<open>(2, 1)\<close>: three cells, within 4 runs.\<close>

theorem backtrace_terminates_witness:
  "\<exists>r. computeEditDistanceSteps [97, 97] [97] = Inr r \<and>
       backtrace_within 4 (parent r) 2 1 [(2, 1)] = Some (Inr [(2, 1), (1, 0), (0, 0)]) \<and>
       buildBacktrace (parent r) 2 1 = Some (Inr [(2, 1), (1, 0), (0, 0)])"
proof -
  let ?a = "[97, 97] :: js_string" and ?b = "[97] :: js_string"
  obtain r where r: "computeEditDistanceSteps ?a ?b = Inr r"
    "\<forall>endI \<le> length ?a. \<forall>endJ \<le> length ?b.
          \<exists>path. backtrace_within (endI + endJ + 1) (parent r) (int endI) (int endJ)
                   (set_add (int endI, int endJ) []) = Some (Inr path) \<and>
                 buildBacktrace (parent r) (int endI) (int endJ) = Some (Inr path)"
    using backtrace_terminates [of ?a ?b] by blast
  have "2 \<le> length ?a" "1 \<le> length ?b" by simp_all
  then obtain path where path:
    "backtrace_within (2 + 1 + 1) (parent r) (int 2) (int 1) (set_add (int 2, int 1) []) =
       Some (Inr path)"
    "buildBacktrace (parent r) (int 2) (int 1) = Some (Inr path)"
    using r(2) by blast
  have "backtrace_within (2 + 1 + 1) (parent r) (int 2) (int 1) (set_add (int 2, int 1) []) =
      Some (Inr [(2, 1), (1, 0), (0, 0)])"
    using example_aa_a_walk [OF r(1)] by (simp add: set_add_def)
  then have "path = [(2, 1), (1, 0), (0, 0)]"
    using path(1) by simp
  then have "buildBacktrace (parent r) 2 1 = Some (Inr [(2, 1), (1, 0), (0, 0)])"
    using path(2) by simp
  then show ?thesis
    using r(1) example_aa_a_walk [OF r(1)] by blast
qed

text \<open>
  Claim C8. For every pair of strings, \<open>buildBacktrace\<close> on the returned parent table and
  the final cell \<open>(a.length, b.length)\<close> returns a set that contains \<open>(0, 0)\<close> and
  \<open>(a.length, b.length)\<close>. Its members, in the order they were added, start at the final
  cell and end at the origin; each one is followed by the cell its parent link points to,
  and the two differ by \<open>(-1, 0)\<close>, \<open>(0, -1)\<close> or \<open>(-1, -1)\<close>.
\<close>

theorem backtrace_path:
  "\<exists>r path. computeEditDistanceSteps a b = Inr r \<and>
       buildBacktrace (parent r) (int (length a)) (int (length b)) = Some (Inr path) \<and>
       (0, 0) \<in> set path \<and> (int (length a), int (length b)) \<in> set path \<and>
       hd path = (int (length a), int (length b)) \<and> last path = (0, 0) \<and>
       successively
         (\<lambda>c c'. (\<exists>p. lookup_link (parent r) (fst c) (snd c) = Some p \<and> c' = (p_i p, p_j p)) \<and>
                  (c = (fst c' + 1, snd c') \<or> c = (fst c', snd c' + 1) \<or>
                   c = (fst c' + 1, snd c' + 1)))
         path"
proof -
  obtain r where r: "computeEditDistanceSteps a b = Inr r"
    using builder_result [of a b] by blast
  have lb: "links_back (length a) (length b) (parent r)"
    using r by (rule builder_links_back)
  obtain path where path:
    "buildBacktrace (parent r) (int (length a)) (int (length b)) = Some (Inr path)"
    "hd path = (int (length a), int (length b))" "last path = (0, 0)"
    "successively (follows (parent r)) path" and ne: "path \<noteq> []"
    using backtrace_from [OF lb, of "length a" "length b"] by auto
  have "follows (parent r) =
      (\<lambda>c c'. (\<exists>p. lookup_link (parent r) (fst c) (snd c) = Some p \<and> c' = (p_i p, p_j p)) \<and>
                  (c = (fst c' + 1, snd c') \<or> c = (fst c', snd c' + 1) \<or>
                   c = (fst c' + 1, snd c' + 1)))"
    by (intro ext) (simp add: follows_def)
  then have "successively
         (\<lambda>c c'. (\<exists>p. lookup_link (parent r) (fst c) (snd c) = Some p \<and> c' = (p_i p, p_j p)) \<and>
                  (c = (fst c' + 1, snd c') \<or> c = (fst c', snd c' + 1) \<or>
                   c = (fst c' + 1, snd c' + 1)))
         path"
    using path(4) by simp
  moreover have "(0, 0) \<in> set path" "(int (length a), int (length b)) \<in> set path"
    using ne path(2,3) last_in_set [OF ne] hd_in_set [OF ne] by simp_all
  ultimately show ?thesis using r path(1,2,3) by blast
qed

text \<open>The instance "aa" and "a": the path is \<open>(2, 1)\<close>, \<open>(1, 0)\<close>, \<open>(0, 0)\<close>.\<close>

theorem backtrace_path_witness:
  "\<exists>r. computeEditDistanceSteps [97, 97] [97] = Inr r \<and>
       buildBacktrace (parent r) 2 1 = Some (Inr [(2, 1), (1, 0), (0, 0)])"
proof -
  let ?a = "[97, 97] :: js_string" and ?b = "[97] :: js_string"
  obtain r path where r: "computeEditDistanceSteps ?a ?b = Inr r"
    "buildBacktrace (parent r) (int (length ?a)) (int (length ?b)) = Some (Inr path)"
    using backtrace_path [of ?a ?b] by blast
  have "buildBacktrace (parent r) 2 1 = Some (Inr [(2, 1), (1, 0), (0, 0)])"
    unfolding buildBacktrace_def
    using example_aa_a_walk [OF r(1)] by (intro within_imp_loop [of 4]) (simp add: set_add_def)
  then show ?thesis using r(1) by blast
qed

text \<open>
  Claim C2, as stated, fails: on the one-cell table \<open>[[null]]\<close> and the coordinates
  \<open>(1, 0)\<close>, which are outside it, \<open>buildBacktrace\<close> returns the set that holds
  \<open>(1, 0)\<close>; it raises nothing.
\<close>

theorem out_of_bounds_returns:
  "buildBacktrace [[None]] 1 0 = Some (Inr [(1, 0)])"
  unfolding buildBacktrace_def
  by (subst backtrace_loop.simps) (simp add: lookup_link_def set_add_def)

text \<open>
  Claim C2, amended. For every parent table and every pair of integer coordinates outside
  it (a negative coordinate, no such row, or no such column in that row),
  \<open>buildBacktrace\<close> returns the set whose only member is the pair of coordinates. The
  function has no error kind: on no table and from no coordinates does it raise, since the
  optional chaining \<open>parent[i]?.[j]\<close> turns every missing cell into the end of the walk.
\<close>

theorem out_of_bounds_start:
  "(\<not> (0 \<le> endI \<and> endI < int (length ptab) \<and>
        0 \<le> endJ \<and> endJ < int (length (ptab ! nat endI))) \<longrightarrow>
      buildBacktrace ptab endI endJ = Some (Inr [(endI, endJ)])) \<and>
   (\<forall>e. buildBacktrace ptab endI endJ \<noteq> Some (Inl e))"
proof (intro conjI impI allI)
  assume "\<not> (0 \<le> endI \<and> endI < int (length ptab) \<and>
        0 \<le> endJ \<and> endJ < int (length (ptab ! nat endI)))"
  then show "buildBacktrace ptab endI endJ = Some (Inr [(endI, endJ)])"
    by (rule start_outside)
next
  fix e
  show "buildBacktrace ptab endI endJ \<noteq> Some (Inl e)"
    unfolding buildBacktrace_def using loop_never_raises by fastforce
qed

text \<open>
  A two by two table: a negative row, a negative column, a column and a row past the end;
  and a start inside the table, which raises nothing either.
\<close>

theorem out_of_bounds_start_witness:
  "buildBacktrace [[None, None], [None, None]] (- 1) 0 = Some (Inr [(- 1, 0)]) \<and>
   buildBacktrace [[None, None], [None, None]] 0 (- 1) = Some (Inr [(0, - 1)]) \<and>
   buildBacktrace [[None, None], [None, None]] 0 2 = Some (Inr [(0, 2)]) \<and>
   buildBacktrace [[None, None], [None, None]] 2 0 = Some (Inr [(2, 0)]) \<and>
   buildBacktrace [[None, None], [None, None]] 1 1 \<noteq> Some (Inl TypeError)"
  using out_of_bounds_start [of "- 1" "[[None, None], [None, None]]" 0]
    out_of_bounds_start [of 0 "[[None, None], [None, None]]" "- 1"]
    out_of_bounds_start [of 0 "[[None, None], [None, None]]" 2]
    out_of_bounds_start [of 2 "[[None, None], [None, None]]" 0]
    out_of_bounds_start [of 1 "[[None, None], [None, None]]" 1]
  by simp

end
